theory Spec2Isabelle
  imports Main
begin

section \<open>Wide strings and the marker alphabet\<close>

text \<open>
  The engine works on \<^verbatim>\<open>wcstring\<close> (\<^verbatim>\<open>std::wstring\<close>): a sequence of
  \<^verbatim>\<open>wchar_t\<close> code points. A code point is a natural number, a string a list
  of them. A \<^verbatim>\<open>std::wstring\<close> may hold the NUL code point; the C functions
  the code calls on \<^verbatim>\<open>c_str()\<close> stop at the first one.
\<close>

type_synonym wchar = nat
type_synonym wcstring = "wchar list"

definition wc :: "char \<Rightarrow> wchar" where
  "wc c = of_char c"

definition wcs :: "string \<Rightarrow> wcstring" where
  "wcs s = map wc s"

text \<open>
  \<^verbatim>\<open>in[pos]\<close> on the buffer of \<^verbatim>\<open>c_str()\<close>: the character at \<open>pos\<close>, and the
  terminating NUL at the end of the string. The source never reads beyond the
  terminator: every scan of it stops at a NUL.
\<close>

definition cstr_at :: "wcstring \<Rightarrow> nat \<Rightarrow> wchar" where
  "cstr_at s i = (if i < length s then s ! i else 0)"

text \<open>
  The \<^verbatim>\<open>wcstring\<close> built from a \<^verbatim>\<open>const wchar_t *\<close> that points at offset
  \<open>k\<close> of the buffer of \<open>s\<close>: the characters up to the first NUL.
\<close>

definition wcs_of_ptr :: "wcstring \<Rightarrow> nat \<Rightarrow> wcstring" where
  "wcs_of_ptr s k = takeWhile (\<lambda>c. c \<noteq> 0) (drop k s)"

text \<open>
  \<^verbatim>\<open>wcschr(set, c) != NULL\<close>: the terminating NUL counts as part of the string
  that is searched, so the NUL character is always found.
\<close>

definition wcschr_found :: "wcstring \<Rightarrow> wchar \<Rightarrow> bool" where
  "wcschr_found cs c \<longleftrightarrow> c = 0 \<or> c \<in> set cs"

text \<open>
  Modelled from the spec: the marker code points. Their declarations (the enums of
  expand.h and wildcard.h, on \<^verbatim>\<open>RESERVED_CHAR_BASE\<close> of common.h) are not in src;
  the spec says they are reserved sentinel code points of a private range and fixes no
  values. The model takes consecutive code points in the order of the enums, from
  0xFDD0 for the expansion markers and from 0xFDE0 for the wildcard markers; what is
  proved below uses only that the markers differ from one another and from the ASCII
  characters.
\<close>

definition HOME_DIRECTORY :: wchar where "HOME_DIRECTORY = 0xFDD0"
definition PROCESS_EXPAND :: wchar where "PROCESS_EXPAND = 0xFDD1"
definition VARIABLE_EXPAND :: wchar where "VARIABLE_EXPAND = 0xFDD2"
definition VARIABLE_EXPAND_SINGLE :: wchar where "VARIABLE_EXPAND_SINGLE = 0xFDD3"
definition BRACKET_BEGIN :: wchar where "BRACKET_BEGIN = 0xFDD4"
definition BRACKET_END :: wchar where "BRACKET_END = 0xFDD5"
definition BRACKET_SEP :: wchar where "BRACKET_SEP = 0xFDD6"
definition INTERNAL_SEPARATOR :: wchar where "INTERNAL_SEPARATOR = 0xFDD7"
definition VARIABLE_EXPAND_EMPTY :: wchar where "VARIABLE_EXPAND_EMPTY = 0xFDD8"
definition ANY_CHAR :: wchar where "ANY_CHAR = 0xFDE0"
definition ANY_STRING :: wchar where "ANY_STRING = 0xFDE1"
definition ANY_STRING_RECURSIVE :: wchar where "ANY_STRING_RECURSIVE = 0xFDE2"

lemmas marker_defs =
  HOME_DIRECTORY_def PROCESS_EXPAND_def VARIABLE_EXPAND_def VARIABLE_EXPAND_SINGLE_def
  BRACKET_BEGIN_def BRACKET_END_def BRACKET_SEP_def INTERNAL_SEPARATOR_def
  VARIABLE_EXPAND_EMPTY_def ANY_CHAR_def ANY_STRING_def ANY_STRING_RECURSIVE_def

text \<open>
  The character classes of the C library, on the ASCII range (the "C" locale):
  \<^verbatim>\<open>iswspace\<close>, the decimal digits \<^verbatim>\<open>wcstol\<close> reads, and \<^verbatim>\<open>iswalnum\<close>.
\<close>

definition iswspace :: "wchar \<Rightarrow> bool" where
  "iswspace c \<longleftrightarrow> c = 32 \<or> (9 \<le> c \<and> c \<le> 13)"

definition iswdigit :: "wchar \<Rightarrow> bool" where
  "iswdigit c \<longleftrightarrow> 48 \<le> c \<and> c \<le> 57"

definition iswalnum :: "wchar \<Rightarrow> bool" where
  "iswalnum c \<longleftrightarrow> (48 \<le> c \<and> c \<le> 57) \<or> (65 \<le> c \<and> c \<le> 90) \<or> (97 \<le> c \<and> c \<le> 122)"

text \<open>
  A loop \<^verbatim>\<open>while (P(in[pos])) pos++\<close> over the buffer, for a class \<open>P\<close> that
  the terminating NUL is not in: the position of the first character from \<open>pos\<close>
  on that is not in \<open>P\<close>.
\<close>

definition skip_while :: "(wchar \<Rightarrow> bool) \<Rightarrow> wcstring \<Rightarrow> nat \<Rightarrow> nat" where
  "skip_while P s pos = pos + length (takeWhile P (drop pos s))"

section \<open>Errors and completions\<close>

datatype parse_error_code = parse_error_syntax | parse_error_cmdsubst

record parse_error_t =
  source_start :: nat
  source_length :: nat
  error_code :: parse_error_code
  error_text :: wcstring

text \<open>
  \<^verbatim>\<open>parse_error_list_t *errors\<close>: the caller may pass no list (a null pointer).
\<close>

type_synonym parse_error_list = "parse_error_t list option"

text \<open>\<^verbatim>\<open>SOURCE_LOCATION_UNKNOWN\<close> is \<^verbatim>\<open>(size_t)(-1)\<close>.\<close>

definition SOURCE_LOCATION_UNKNOWN :: nat where
  "SOURCE_LOCATION_UNKNOWN = 2 ^ 64 - 1"

definition append_syntax_error :: "parse_error_list \<Rightarrow> nat \<Rightarrow> wcstring \<Rightarrow> parse_error_list" where
  "append_syntax_error errors start msg =
     (case errors of
        None \<Rightarrow> None
      | Some es \<Rightarrow>
          Some (es @ [\<lparr>source_start = start, source_length = 0,
                       error_code = parse_error_syntax, error_text = msg\<rparr>]))"

definition append_cmdsub_error :: "parse_error_list \<Rightarrow> nat \<Rightarrow> wcstring \<Rightarrow> parse_error_list" where
  "append_cmdsub_error errors start msg =
     (case errors of
        None \<Rightarrow> None
      | Some es \<Rightarrow>
          if \<exists>it \<in> set es. error_text it = msg then Some es
          else Some (es @ [\<lparr>source_start = start, source_length = 0,
                            error_code = parse_error_cmdsubst, error_text = msg\<rparr>]))"

datatype complete_flag = COMPLETE_REPLACES_TOKEN | COMPLETE_DONT_ESCAPE_TILDES

record completion_t =
  completion :: wcstring
  description :: wcstring
  flags :: "complete_flag set"

text \<open>
  Modelled from the spec: \<^verbatim>\<open>append_completion(out, str)\<close> of complete.cpp, which is
  not in src. The stages produce bare strings: the string with no description and
  no flag, added at the end of the list.
\<close>

definition append_completion :: "completion_t list \<Rightarrow> wcstring \<Rightarrow> completion_t list" where
  "append_completion out s = out @ [\<lparr>completion = s, description = [], flags = {}\<rparr>]"

section \<open>Slices\<close>

text \<open>
  Modelled from the spec: \<^verbatim>\<open>fish_wcstol\<close> of wutil.cpp, which is not in src. An
  index is a signed decimal integer. The function skips white space, reads an optional
  sign and the digits with \<^verbatim>\<open>wcstol\<close>, and skips the white space that follows. It
  returns the value, the position where it stopped and \<^verbatim>\<open>errno\<close>: \<^verbatim>\<open>EINVAL\<close>
  when there is no digit to read, \<^verbatim>\<open>ERANGE\<close> when the value does not fit a
  64-bit \<^verbatim>\<open>long\<close>, \<open>-1\<close> when the number is followed by another character (the
  case parse_slice ignores), and \<open>0\<close> when the number ends the string.
\<close>

definition EINVAL :: int where "EINVAL = 22"
definition ERANGE :: int where "ERANGE = 34"
definition LONG_MAX :: int where "LONG_MAX = 2 ^ 63 - 1"
definition LONG_MIN :: int where "LONG_MIN = - (2 ^ 63)"

definition digits_value :: "wcstring \<Rightarrow> int" where
  "digits_value ds = foldl (\<lambda>a d. 10 * a + int (d - 48)) 0 ds"

definition fish_wcstol :: "wcstring \<Rightarrow> nat \<Rightarrow> int \<times> nat \<times> int" where
  "fish_wcstol s pos =
     (let p = skip_while iswspace s pos in
      if cstr_at s p = 0 then (0, p, EINVAL)
      else
        let neg = (cstr_at s p = wc CHR ''-'');
            q = (if cstr_at s p = wc CHR ''-'' \<or> cstr_at s p = wc CHR ''+'' then p + 1 else p);
            ds = takeWhile iswdigit (drop q s)
        in if ds = [] then (0, p, EINVAL)
           else
             let v = (if neg then - digits_value ds else digits_value ds);
                 e = skip_while iswspace s (q + length ds)
             in if v < LONG_MIN then (LONG_MIN, e, ERANGE)
                else if LONG_MAX < v then (LONG_MAX, e, ERANGE)
                else (v, e, if cstr_at s e \<noteq> 0 then - 1 else 0))"

text \<open>
  The loop of parse_slice that pushes a range (lines 678-683):
  \<^verbatim>\<open>for (long jjj = i1; jjj * direction <= i2 * direction; jjj += direction)\<close>,
  where \<^verbatim>\<open>direction\<close> is \<open>-1\<close> when the range goes down and \<open>1\<close> otherwise.
  The result is the list of the indexes pushed, in the order of the pushes.
\<close>

function push_range :: "bool \<Rightarrow> int \<Rightarrow> int \<Rightarrow> int list" where
  "push_range down i2 jjj =
     (let direction = (if down then - 1 else 1) in
      if jjj * direction \<le> i2 * direction
      then jjj # push_range down i2 (jjj + direction)
      else [])"
  by pat_completeness auto
termination
  by (relation "measure (\<lambda>(down, i2, jjj). nat (if down then jjj - i2 + 1 else i2 - jjj + 1))")
     (auto split: if_splits)

declare push_range.simps [simp del]

lemma skip_while_ge: "pos \<le> skip_while P s pos"
  by (simp add: skip_while_def)

lemma fish_wcstol_progress:
  assumes "fish_wcstol s pos = (v, e, err)" and "err \<le> 0"
  shows "pos < e \<and> pos < length s"
proof -
  let ?p = "skip_while iswspace s pos"
  let ?q = "if cstr_at s ?p = wc CHR ''-'' \<or> cstr_at s ?p = wc CHR ''+'' then ?p + 1 else ?p"
  let ?ds = "takeWhile iswdigit (drop ?q s)"
  from assms have nz: "cstr_at s ?p \<noteq> 0"
    by (auto simp: fish_wcstol_def Let_def EINVAL_def split: if_splits)
  with assms have ds: "?ds \<noteq> []"
    by (auto simp: fish_wcstol_def Let_def EINVAL_def split: if_splits)
  from nz have "?p < length s"
    by (simp add: cstr_at_def split: if_splits)
  moreover have "pos \<le> ?p" by (rule skip_while_ge)
  moreover from assms nz ds have "e = skip_while iswspace s (?q + length ?ds)"
    by (auto simp: fish_wcstol_def Let_def EINVAL_def ERANGE_def split: if_splits)
  moreover have "?q + length ?ds \<le> skip_while iswspace s (?q + length ?ds)"
    by (rule skip_while_ge)
  moreover have "?p \<le> ?q" by simp
  moreover from ds have "0 < length ?ds" by simp
  ultimately show ?thesis by linarith
qed

text \<open>
  parse_slice (lines 631-697). \<open>s\<close> is the text from the opening square bracket on,
  \<open>sz\<close> the array size as a \<^verbatim>\<open>long\<close> (the cast \<^verbatim>\<open>(long)array_size\<close> is
  the identity on the size of a vector). The result is the position of the bad
  token (\<open>Inl\<close>; it is never 0), or the indexes, their source positions and the
  position after the closing bracket, which the source returns in \<^verbatim>\<open>*end_ptr\<close>.
  The values of \<^verbatim>\<open>long\<close> are integers here: a number that does not fit is an
  error of \<^verbatim>\<open>fish_wcstol\<close>, and \<open>size + tmp + 1\<close> of a negative \<open>tmp\<close> does
  not leave the range of a \<^verbatim>\<open>long\<close>.
\<close>

function parse_slice_loop ::
  "wcstring \<Rightarrow> int \<Rightarrow> nat \<Rightarrow> int list \<Rightarrow> nat list \<Rightarrow> nat + (int list \<times> nat list \<times> nat)" where
  "parse_slice_loop s sz pos idx source_positions =
     (let pos1 = skip_while (\<lambda>c. iswspace c \<or> c = INTERNAL_SEPARATOR) s pos in
      if cstr_at s pos1 = wc CHR '']'' then Inr (idx, source_positions, pos1 + 1)
      else
        (case fish_wcstol s pos1 of (tmp, end1, errno1) \<Rightarrow>
           if 0 < errno1 then Inl pos1
           else
             let i1 = (if - 1 < tmp then tmp else sz + tmp + 1);
                 pos2 = skip_while (\<lambda>c. c = INTERNAL_SEPARATOR) s end1
             in if cstr_at s pos2 = wc CHR ''.'' \<and> cstr_at s (pos2 + 1) = wc CHR ''.'' then
                  (let number_start = skip_while (\<lambda>c. c = INTERNAL_SEPARATOR) s (pos2 + 2) in
                   case fish_wcstol s number_start of (tmp1, end2, errno2) \<Rightarrow>
                     if 0 < errno2 then Inl number_start
                     else
                       let i2 = (if - 1 < tmp1 then tmp1 else sz + tmp1 + 1) in
                       if sz < i1 \<and> sz < i2
                       then parse_slice_loop s sz end2 idx source_positions
                       else
                         let i1c = (if i1 < sz then i1 else sz);
                             i2c = (if i2 < sz then i2 else sz);
                             pushed = push_range (i2c < i1c) i2c i1c
                         in parse_slice_loop s sz end2 (idx @ pushed)
                              (source_positions @ replicate (length pushed) number_start))
                else parse_slice_loop s sz pos2 (idx @ [i1]) (source_positions @ [pos1])))"
  by pat_completeness auto
termination
proof (relation "measure (\<lambda>(s, sz, pos, idx, sp). length s - pos)")
  show "wf (measure (\<lambda>(s, sz, pos, idx, sp). length s - pos))"
    by simp
next
  fix s :: wcstring and sz :: int and pos x xb xaa xd xf :: nat and xa xe ya yc :: int
    and y yb :: "nat \<times> int" and xc xg :: int and idx :: "int list"
    and source_positions :: "nat list"
  assume "x = skip_while (\<lambda>c. iswspace c \<or> c = INTERNAL_SEPARATOR) s pos"
    and "(xa, y) = fish_wcstol s x" and "(xb, ya) = y" and "\<not> 0 < ya"
    and "xaa = skip_while (\<lambda>c. c = INTERNAL_SEPARATOR) s xb"
    and "xd = skip_while (\<lambda>c. c = INTERNAL_SEPARATOR) s (xaa + 2)"
    and "(xe, yb) = fish_wcstol s xd" and "(xf, yc) = yb" and "\<not> 0 < yc"
  then have "pos < xf \<and> pos < length s"
    using fish_wcstol_progress [of s x xa xb ya] fish_wcstol_progress [of s xd xe xf yc]
      skip_while_ge [of pos "\<lambda>c. iswspace c \<or> c = INTERNAL_SEPARATOR" s]
      skip_while_ge [of xb "\<lambda>c. c = INTERNAL_SEPARATOR" s]
      skip_while_ge [of "xaa + 2" "\<lambda>c. c = INTERNAL_SEPARATOR" s]
    by auto
  then show "((s, sz, xf, idx, source_positions), s, sz, pos, idx, source_positions)
      \<in> measure (\<lambda>(s, sz, pos, idx, sp). length s - pos)"
    and "\<And>xj. ((s, sz, xf, idx @ xj, source_positions @ replicate (length xj) xd),
        s, sz, pos, idx, source_positions)
      \<in> measure (\<lambda>(s, sz, pos, idx, sp). length s - pos)"
    by auto
next
  fix s :: wcstring and sz :: int and pos x xb xaa :: nat and xa ya xc :: int
    and y :: "nat \<times> int" and idx :: "int list" and source_positions :: "nat list"
  assume "x = skip_while (\<lambda>c. iswspace c \<or> c = INTERNAL_SEPARATOR) s pos"
    and "(xa, y) = fish_wcstol s x" and "(xb, ya) = y" and "\<not> 0 < ya"
    and "xaa = skip_while (\<lambda>c. c = INTERNAL_SEPARATOR) s xb"
  then have "pos < xaa \<and> pos < length s"
    using fish_wcstol_progress [of s x xa xb ya]
      skip_while_ge [of pos "\<lambda>c. iswspace c \<or> c = INTERNAL_SEPARATOR" s]
      skip_while_ge [of xb "\<lambda>c. c = INTERNAL_SEPARATOR" s]
    by auto
  then show "((s, sz, xaa, idx @ [xc], source_positions @ [x]), s, sz, pos, idx, source_positions)
      \<in> measure (\<lambda>(s, sz, pos, idx, sp). length s - pos)"
    by auto
qed

declare parse_slice_loop.simps [simp del]

definition parse_slice :: "wcstring \<Rightarrow> nat \<Rightarrow> nat + (int list \<times> nat list \<times> nat)" where
  "parse_slice s array_size = parse_slice_loop s (int array_size) 1 [] []"

section \<open>Variable expansion\<close>

text \<open>
  The environment store and the history store are outside the engine. A variable is
  the sequence of its values (\<^verbatim>\<open>as_list\<close>, \<^verbatim>\<open>to_list\<close>); \<^verbatim>\<open>env_get\<close> gives
  a variable or nothing. Of the history the code uses its size, the list of all its
  items and the map from indexes to items. \<open>main_thread_history\<close> is what
  \<^verbatim>\<open>is_main_thread() ? reader_get_history() : nullptr\<close> gives: no history on
  another thread.
\<close>

type_synonym env_var_t = "wcstring list"

record history_t =
  hist_size :: nat
  hist_get_history :: "wcstring list"
  hist_items_at_indexes :: "int list \<Rightarrow> int \<Rightarrow> wcstring option"

record variable_env =
  env_get :: "wcstring \<Rightarrow> env_var_t option"
  main_thread_history :: "history_t option"

text \<open>
  Modelled from the spec: \<^verbatim>\<open>valid_var_name_char\<close> of common.cpp, which is not in
  src. The valid name characters are the alphanumeric ones and the underscore; no
  marker is one.
\<close>

definition valid_var_name_char :: "wchar \<Rightarrow> bool" where
  "valid_var_name_char c \<longleftrightarrow> iswalnum c \<or> c = wc CHR ''_''"

text \<open>
  Modelled from the spec: \<^verbatim>\<open>parse_util_expand_variable_error\<close> of parse_util.cpp,
  which is not in src. An empty variable name is a syntax error, collected into the
  error list. The spec fixes neither the text of the error nor which position near
  the marker it carries: the model takes the position of the marker and a text that
  names the error.
\<close>

definition parse_util_expand_variable_error ::
  "wcstring \<Rightarrow> nat \<Rightarrow> nat \<Rightarrow> parse_error_list \<Rightarrow> parse_error_list" where
  "parse_util_expand_variable_error token global_token_pos dollar_pos errors =
     append_syntax_error errors (global_token_pos + dollar_pos)
       (wcs ''Expected a variable name after this $.'')"

text \<open>
  Lines 725-739: the search, from \<open>last_idx\<close> down, for the last
  \<^verbatim>\<open>VARIABLE_EXPAND\<close> or \<^verbatim>\<open>VARIABLE_EXPAND_SINGLE\<close>. When the loop ends with
  no marker the index has wrapped around and is not less than the size: \<open>None\<close>.
\<close>

fun find_varexp :: "wcstring \<Rightarrow> nat \<Rightarrow> nat option" where
  "find_varexp instr 0 = None"
| "find_varexp instr (Suc i) =
     (if instr ! i = VARIABLE_EXPAND \<or> instr ! i = VARIABLE_EXPAND_SINGLE then Some i
      else find_varexp instr i)"

lemma find_varexp_less: "find_varexp instr n = Some i \<Longrightarrow> i < n"
  by (induction n) (auto split: if_splits)

text \<open>Lines 743-752: the end of the variable name that starts at \<open>var_name_stop\<close>.\<close>

function var_name_scan :: "wcstring \<Rightarrow> nat \<Rightarrow> nat" where
  "var_name_scan instr var_name_stop =
     (if var_name_stop < length instr then
        (let nc = instr ! var_name_stop in
         if nc = VARIABLE_EXPAND_EMPTY then var_name_stop + 1
         else if \<not> valid_var_name_char nc then var_name_stop
         else var_name_scan instr (var_name_stop + 1))
      else var_name_stop)"
  by pat_completeness auto
termination
  by (relation "measure (\<lambda>(instr, var_name_stop). length instr - var_name_stop)") auto

declare var_name_scan.simps [simp del]

text \<open>
  Lines 783-808: the slice that may follow the name. The result is the position of
  the bad token, or \<^verbatim>\<open>all_values\<close>, the list of indexes and the end of the name
  and slice.
\<close>

definition variable_slice :: "wcstring \<Rightarrow> nat \<Rightarrow> nat \<Rightarrow> nat + (bool \<times> int list \<times> nat)" where
  "variable_slice instr slice_start effective_val_count =
     (if slice_start < length instr \<and> instr ! slice_start = wc CHR ''[''
      then
        (case parse_slice (drop slice_start instr) effective_val_count of
           Inl bad_pos \<Rightarrow> Inl bad_pos
         | Inr (var_idx_list, var_pos_list, slice_end) \<Rightarrow>
             Inr (False, var_idx_list, slice_start + slice_end))
      else Inr (True, [], slice_start))"

text \<open>Lines 850-860: the items of a variable at the indexes of the slice, 1-based.\<close>

fun select_items :: "wcstring list \<Rightarrow> int list \<Rightarrow> wcstring list" where
  "select_items all_var_items [] = []"
| "select_items all_var_items (item_index # rest) =
     (if 1 \<le> item_index \<and> nat item_index \<le> length all_var_items
      then all_var_items ! (nat (item_index - 1)) # select_items all_var_items rest
      else select_items all_var_items rest)"

text \<open>Lines 829-861: the items to expand to, with the slice respected.\<close>

definition var_items ::
  "env_var_t option \<Rightarrow> history_t option \<Rightarrow> bool \<Rightarrow> int list \<Rightarrow> wcstring list" where
  "var_items var history all_values var_idx_list =
     (case history of
        Some h \<Rightarrow>
          if all_values then hist_get_history h
          else List.map_filter (hist_items_at_indexes h var_idx_list) var_idx_list
      | None \<Rightarrow>
          (case var of
             Some v \<Rightarrow> if all_values then v else select_items v var_idx_list
           | None \<Rightarrow> []))"

text \<open>
  expand_variables (lines 714-908), with the loop over the items of the cartesian
  product (lines 887-905) as a function of its own. The result is \<open>None\<close> when
  the assertion on \<open>last_idx\<close> fails; otherwise the value returned, the output
  list and the error list.
\<close>

function expand_variables ::
    "variable_env \<Rightarrow> wcstring \<Rightarrow> completion_t list \<Rightarrow> nat \<Rightarrow> parse_error_list
      \<Rightarrow> (bool \<times> completion_t list \<times> parse_error_list) option"
  and expand_variables_items ::
    "variable_env \<Rightarrow> wcstring \<Rightarrow> nat \<Rightarrow> nat \<Rightarrow> wcstring list \<Rightarrow> completion_t list
      \<Rightarrow> parse_error_list \<Rightarrow> (bool \<times> completion_t list \<times> parse_error_list) option"
where
  "expand_variables E instr out last_idx errors =
     (if \<not> last_idx \<le> length instr then None
      else if last_idx = 0 then Some (True, append_completion out instr, errors)
      else
        (case find_varexp instr last_idx of
           None \<Rightarrow> Some (True, append_completion out instr, errors)
         | Some varexp_char_idx \<Rightarrow>
             let is_single = (instr ! varexp_char_idx = VARIABLE_EXPAND_SINGLE);
                 var_name_start = varexp_char_idx + 1;
                 var_name_stop = var_name_scan instr var_name_start;
                 var_name_len = var_name_stop - var_name_start
             in
             if var_name_len = 0 then
               Some (False, out,
                 if errors \<noteq> None
                 then parse_util_expand_variable_error instr 0 varexp_char_idx errors
                 else errors)
             else
               let var_name = take var_name_len (drop var_name_start instr);
                   history =
                     (if var_name = wcs ''history'' then main_thread_history E else None);
                   var =
                     (if var_name = wcs ''history'' then None
                      else if var_name \<noteq> [VARIABLE_EXPAND_EMPTY] then env_get E var_name
                      else None);
                   effective_val_count =
                     (case var of
                        Some v \<Rightarrow> length v
                      | None \<Rightarrow> (case history of Some h \<Rightarrow> hist_size h | None \<Rightarrow> 1))
               in
               (case variable_slice instr var_name_stop effective_val_count of
                  Inl bad_pos \<Rightarrow>
                    Some (False, out,
                      append_syntax_error errors (var_name_stop + bad_pos)
                        (wcs ''Invalid index value''))
                | Inr (all_values, var_idx_list, var_name_and_slice_stop) \<Rightarrow>
                    if var = None \<and> history = None then
                      (if \<not> is_single then Some (True, out, errors)
                       else
                         let res0 = take varexp_char_idx instr;
                             res1 =
                               (if res0 \<noteq> [] \<and> last res0 = VARIABLE_EXPAND_SINGLE
                                then res0 @ [VARIABLE_EXPAND_EMPTY] else res0);
                             res = res1 @ drop var_name_and_slice_stop instr
                         in expand_variables E res out varexp_char_idx errors)
                    else
                      let var_item_list = var_items var history all_values var_idx_list in
                      if is_single then
                        let res0 = take varexp_char_idx instr;
                            res1 =
                              (if res0 \<noteq> [] then
                                 (if last res0 \<noteq> VARIABLE_EXPAND_SINGLE
                                  then res0 @ [INTERNAL_SEPARATOR]
                                  else if var_item_list = [] \<or> hd var_item_list = []
                                  then res0 @ [VARIABLE_EXPAND_EMPTY]
                                  else res0)
                               else res0);
                            res2 =
                              (if var_item_list \<noteq> []
                               then butlast
                                 (foldl (\<lambda>r item. r @ item @ [wc CHR '' '']) res1 var_item_list)
                               else res1);
                            res = res2 @ drop var_name_and_slice_stop instr
                        in expand_variables E res out varexp_char_idx errors
                      else
                        expand_variables_items E instr varexp_char_idx
                          var_name_and_slice_stop var_item_list out errors)))"
| "expand_variables_items E instr varexp_char_idx var_name_and_slice_stop [] out errors =
     Some (True, out, errors)"
| "expand_variables_items E instr varexp_char_idx var_name_and_slice_stop (item # rest) out errors =
     (if varexp_char_idx = 0 \<and> var_name_and_slice_stop = length instr then
        expand_variables_items E instr varexp_char_idx var_name_and_slice_stop rest
          (append_completion out item) errors
      else
        let new_in0 = take varexp_char_idx instr;
            new_in1 =
              (if new_in0 \<noteq> [] then
                 (if last new_in0 \<noteq> VARIABLE_EXPAND then new_in0 @ [INTERNAL_SEPARATOR]
                  else if item = [] then new_in0 @ [VARIABLE_EXPAND_EMPTY]
                  else new_in0)
               else new_in0);
            new_in = new_in1 @ item @ drop var_name_and_slice_stop instr
        in
        (case expand_variables E new_in out varexp_char_idx errors of
           None \<Rightarrow> None
         | Some (ok, out1, errors1) \<Rightarrow>
             if \<not> ok then Some (False, out1, errors1)
             else expand_variables_items E instr varexp_char_idx var_name_and_slice_stop rest
                    out1 errors1))"
  by pat_completeness auto

termination
  apply (relation "inv_image (less_than <*lex*> less_than)
      (\<lambda>x. case x of
         Inl (E, instr, out, last_idx, errors) \<Rightarrow> (2 * last_idx + 1, 0)
       | Inr (E, instr, varexp_char_idx, stop, items, out, errors) \<Rightarrow>
           (2 * varexp_char_idx + 2, length items))")
  apply (auto dest: find_varexp_less)
  done

declare expand_variables.simps [simp del]

section \<open>The login shim\<close>

text \<open>
  fish_xdm_login_hack_hack_hack_hack and its helper (lines 1524-1563) work on narrow
  strings. A \<^verbatim>\<open>const char *\<close> is the list of the characters before its
  terminator; \<^verbatim>\<open>argv\<close> is the list of its entries, a null pointer being
  \<open>None\<close>, and so is the pointer to the command list.
\<close>

definition backslash :: char where "backslash = CHR 0x5C"
definition single_quote :: char where "single_quote = CHR 0x27"
definition double_quote :: char where "double_quote = CHR 0x22"

text \<open>Lines 1529-1534: the loop over the characters of the argument.\<close>

function escape_single_quoted_loop :: "string \<Rightarrow> nat \<Rightarrow> string \<Rightarrow> string" where
  "escape_single_quoted_loop str i result =
     (if i < length str then
        (let c = str ! i;
             result1 = (if c = backslash \<or> c = single_quote then result @ [backslash] else result)
         in escape_single_quoted_loop str (i + 1) (result1 @ [c]))
      else result)"
  by pat_completeness auto
termination
  by (relation "measure (\<lambda>(str, i, result). length str - i)") auto

declare escape_single_quoted_loop.simps [simp del]

definition escape_single_quoted_hack_hack_hack_hack :: "string \<Rightarrow> string" where
  "escape_single_quoted_hack_hack_hack_hack str =
     escape_single_quoted_loop str 0 [single_quote] @ [single_quote]"

text \<open>
  Lines 1551-1557: the loop over \<^verbatim>\<open>argv[1]\<close> to \<^verbatim>\<open>argv[argc - 1]\<close>. Reading
  an entry that \<^verbatim>\<open>argv\<close> does not have is undefined in C: the result is
  \<open>None\<close>.
\<close>

function xdm_args_loop :: "string option list \<Rightarrow> int \<Rightarrow> int \<Rightarrow> string \<Rightarrow> string option" where
  "xdm_args_loop argv argc i new_cmd =
     (if i < argc then
        (if 0 \<le> i \<and> nat i < length argv then
           (case argv ! nat i of
              Some arg \<Rightarrow>
                xdm_args_loop argv argc (i + 1)
                  (new_cmd @ '' '' @ escape_single_quoted_hack_hack_hack_hack arg)
            | None \<Rightarrow> xdm_args_loop argv argc (i + 1) new_cmd)
         else None)
      else Some new_cmd)"
  by pat_completeness auto
termination
  by (relation "measure (\<lambda>(argv, argc, i, new_cmd). nat (argc - i))") auto

declare xdm_args_loop.simps [simp del]

text \<open>The two commands the shim looks for: \<^verbatim>\<open>exec "${@}"\<close> and \<^verbatim>\<open>exec "$@"\<close>.\<close>

definition xdm_exec_braces :: string where
  "xdm_exec_braces = ''exec '' @ [double_quote] @ ''${@}'' @ [double_quote]"

definition xdm_exec_plain :: string where
  "xdm_exec_plain = ''exec '' @ [double_quote] @ ''$@'' @ [double_quote]"

definition fish_xdm_login_hack_hack_hack_hack ::
  "string list option \<Rightarrow> int \<Rightarrow> string option list \<Rightarrow> (bool \<times> string list option) option" where
  "fish_xdm_login_hack_hack_hack_hack cmds argc argv =
     (case cmds of
        None \<Rightarrow> Some (False, cmds)
      | Some cs \<Rightarrow>
          if length cs \<noteq> 1 then Some (False, cmds)
          else
            let cmd = cs ! 0 in
            if cmd = xdm_exec_braces \<or> cmd = xdm_exec_plain then
              (case xdm_args_loop argv argc 1 ''exec'' of
                 None \<Rightarrow> None
               | Some new_cmd \<Rightarrow> Some (True, Some (cs[0 := new_cmd])))
            else Some (False, cmds))"

section \<open>The pipeline driver\<close>

text \<open>
  Modelled from the spec: the result codes and the flag set. Their declarations
  (expand.h) are not in src. The flags are a bit mask in the source; here a flag set
  is the set of the flags that are on.
\<close>

datatype expand_error_t =
  EXPAND_ERROR | EXPAND_OK | EXPAND_WILDCARD_NO_MATCH | EXPAND_WILDCARD_MATCH

datatype expand_flag =
  EXPAND_SKIP_CMDSUBST | EXPAND_SKIP_VARIABLES | EXPAND_SKIP_WILDCARDS
  | EXPAND_FOR_COMPLETIONS | EXECUTABLES_ONLY | EXPAND_NO_DESCRIPTIONS | EXPAND_SKIP_JOBS
  | EXPAND_SKIP_HOME_DIRECTORIES | EXPAND_SPECIAL_FOR_CD | EXPAND_SPECIAL_FOR_COMMAND

type_synonym expand_flags_t = "expand_flag set"

text \<open>
  expand_is_clean (lines 80-103). \<^verbatim>\<open>wcschr\<close> also finds the terminating NUL of
  the string it searches, so a first character NUL makes a string unclean;
  \<^verbatim>\<open>find_first_of\<close> looks for the characters of \<^verbatim>\<open>UNCLEAN\<close> only.
\<close>

definition UNCLEAN_FIRST :: wcstring where
  "UNCLEAN_FIRST = wcs ''~%''"

definition UNCLEAN :: wcstring where
  "UNCLEAN = wcs (''$*?'' @ [backslash, double_quote, single_quote] @ ''({})'')"

definition expand_is_clean :: "wcstring \<Rightarrow> bool" where
  "expand_is_clean input =
     (if input = [] then True
      else if wcschr_found UNCLEAN_FIRST (input ! 0) then False
      else \<not> (\<exists>c \<in> set input. c \<in> set UNCLEAN))"

text \<open>
  What the tilde functions use from outside the engine: the variable \<^verbatim>\<open>HOME\<close>
  (\<^verbatim>\<open>env_get(L"HOME")\<close>), the two functions of the variable type they call
  (\<^verbatim>\<open>missing_or_empty\<close> and \<^verbatim>\<open>as_string\<close>, declared in env.h, which is not in
  src), the home directory that the user database has for a name (\<^verbatim>\<open>getpwnam_r\<close>)
  and \<^verbatim>\<open>wrealpath\<close>.
\<close>

record directory_env =
  env_home :: "env_var_t option"
  missing_or_empty :: "env_var_t option \<Rightarrow> bool"
  as_string :: "env_var_t \<Rightarrow> wcstring"
  user_home :: "wcstring \<Rightarrow> wcstring option"
  wrealpath :: "wcstring \<Rightarrow> wcstring option"

text \<open>
  get_home_directory_name (lines 1140-1153): the user name after the tilde and the
  index of the rest. Both callers have checked that the input starts with the tilde
  or with \<^verbatim>\<open>HOME_DIRECTORY\<close>, which is what the function asserts.
\<close>

definition get_home_directory_name :: "wcstring \<Rightarrow> wcstring \<times> nat" where
  "get_home_directory_name input =
     (let tail_idx = length (takeWhile (\<lambda>c. c \<noteq> wc CHR ''/'') (wcs_of_ptr input 0))
      in (take (tail_idx - 1) (drop 1 input), tail_idx))"

text \<open>expand_home_directory (lines 1156-1192) and expand_tilde (lines 1194-1201).\<close>

definition expand_home_directory :: "directory_env \<Rightarrow> wcstring \<Rightarrow> wcstring" where
  "expand_home_directory D input =
     (if input \<noteq> [] \<and> input ! 0 = HOME_DIRECTORY then
        (case get_home_directory_name input of (username, name_tail_idx) \<Rightarrow>
           if username = [] \<and> missing_or_empty D (env_home D) then []
           else
             let home =
                   (if username = [] then env_home D
                    else (case user_home D username of
                            Some pw_dir \<Rightarrow> Some [pw_dir]
                          | None \<Rightarrow> None));
                 tail_idx = (if username = [] then 1 else name_tail_idx);
                 realhome =
                   (case home of Some h \<Rightarrow> wrealpath D (as_string D h) | None \<Rightarrow> None)
             in (case realhome of
                   Some r \<Rightarrow> r @ drop tail_idx input
                 | None \<Rightarrow> input[0 := wc CHR ''~'']))
      else input)"

definition expand_tilde :: "directory_env \<Rightarrow> wcstring \<Rightarrow> wcstring" where
  "expand_tilde D input =
     (if input \<noteq> [] \<and> input ! 0 = wc CHR ''~''
      then expand_home_directory D (input[0 := HOME_DIRECTORY])
      else input)"

text \<open>
  Modelled from the spec: \<^verbatim>\<open>string_prefixes_string\<close> of common.cpp, which is not in
  src: the text of the completion begins with the resolved home directory.
\<close>

definition string_prefixes_string :: "wcstring \<Rightarrow> wcstring \<Rightarrow> bool" where
  "string_prefixes_string proposed_prefix v \<longleftrightarrow>
     length proposed_prefix \<le> length v \<and> take (length proposed_prefix) v = proposed_prefix"

text \<open>unexpand_tildes (lines 1203-1238).\<close>

definition unexpand_tildes :: "directory_env \<Rightarrow> wcstring \<Rightarrow> completion_t list \<Rightarrow> completion_t list" where
  "unexpand_tildes D input completions =
     (if input = [] \<or> input ! 0 \<noteq> wc CHR ''~'' then completions
      else if \<not> (\<exists>comp \<in> set completions. COMPLETE_REPLACES_TOKEN \<in> flags comp) then completions
      else
        let username_with_tilde = wc CHR ''~'' # fst (get_home_directory_name input);
            home = expand_tilde D username_with_tilde
        in map (\<lambda>comp.
                  if COMPLETE_REPLACES_TOKEN \<in> flags comp
                     \<and> string_prefixes_string home (completion comp)
                  then comp\<lparr>completion := username_with_tilde @ drop (length home) (completion comp),
                            flags := flags comp \<union> {COMPLETE_DONT_ESCAPE_TILDES}\<rparr>
                  else comp)
             completions)"

text \<open>
  A stage (lines 1289-1295) takes the input, the output list, the flags and the
  errors, and returns its result with the output list and the errors as it leaves
  them. The five stages of the source are the entries of a local array of
  expand_string; the driver is modelled over any list of stages, so that what is
  proved of it holds whatever the stages compute.

  The driver also records the stage invocations it makes, in order: for each, the
  index of the stage, the input, the result of the stage and \<^verbatim>\<open>total_result\<close>
  after the update of lines 1481-1484. The source keeps no such list; it is the
  effect of the driver that claims about what runs, and in what order, speak of.
\<close>

type_synonym expand_stage_t =
  "wcstring \<Rightarrow> completion_t list \<Rightarrow> expand_flags_t \<Rightarrow> parse_error_list
    \<Rightarrow> expand_error_t \<times> completion_t list \<times> parse_error_list"

record stage_call =
  call_stage :: nat
  call_input :: wcstring
  call_result :: expand_error_t
  call_total :: expand_error_t

type_synonym driver_state =
  "expand_error_t \<times> completion_t list \<times> parse_error_list \<times> stage_call list"

text \<open>Lines 1476-1485: the loop over the completions of one stage.\<close>

fun stage_loop ::
  "expand_stage_t \<Rightarrow> nat \<Rightarrow> expand_flags_t \<Rightarrow> completion_t list \<Rightarrow> driver_state \<Rightarrow> driver_state" where
  "stage_loop stage stage_idx flgs [] st = st"
| "stage_loop stage stage_idx flgs (c # cs) (total_result, output_storage, errors, calls) =
     (if total_result = EXPAND_ERROR then (total_result, output_storage, errors, calls)
      else
        (case stage (completion c) output_storage flgs errors of
           (this_result, output_storage1, errors1) \<Rightarrow>
             let total_result1 =
                   (if \<not> (this_result = EXPAND_WILDCARD_NO_MATCH
                           \<and> total_result = EXPAND_WILDCARD_MATCH)
                    then this_result else total_result)
             in stage_loop stage stage_idx flgs cs
                  (total_result1, output_storage1, errors1,
                   calls @ [\<lparr>call_stage = stage_idx, call_input = completion c,
                              call_result = this_result, call_total = total_result1\<rparr>])))"

text \<open>
  Lines 1474-1490: the loop over the stages. The output of a stage becomes the input
  of the next one.
\<close>

fun stages_loop ::
  "expand_stage_t list \<Rightarrow> nat \<Rightarrow> expand_flags_t \<Rightarrow> driver_state \<Rightarrow> driver_state" where
  "stages_loop [] stage_idx flgs st = st"
| "stages_loop (stage # rest) stage_idx flgs (total_result, completions, errors, calls) =
     (if total_result = EXPAND_ERROR then (total_result, completions, errors, calls)
      else stages_loop rest (stage_idx + 1) flgs
             (stage_loop stage stage_idx flgs completions (total_result, [], errors, calls)))"

text \<open>expand_string (lines 1456-1500).\<close>

definition expand_string ::
  "directory_env \<Rightarrow> expand_stage_t list \<Rightarrow> wcstring \<Rightarrow> completion_t list \<Rightarrow> expand_flags_t
    \<Rightarrow> parse_error_list \<Rightarrow> driver_state" where
  "expand_string D stages input out_completions flgs errors =
     (if EXPAND_FOR_COMPLETIONS \<notin> flgs \<and> expand_is_clean input
      then (EXPAND_OK, append_completion out_completions input, errors, [])
      else
        (case stages_loop stages 0 flgs (EXPAND_OK, append_completion [] input, errors, []) of
           (total_result, completions, errors1, calls) \<Rightarrow>
             if total_result \<noteq> EXPAND_ERROR then
               (total_result,
                out_completions @
                  (if EXPAND_SKIP_HOME_DIRECTORIES \<notin> flgs
                   then unexpand_tildes D input completions else completions),
                errors1, calls)
             else (total_result, out_completions, errors1, calls)))"

section \<open>The wildcard stage\<close>

text \<open>remove_internal_separator (lines 1263-1287).\<close>

definition remove_internal_separator :: "wcstring \<Rightarrow> bool \<Rightarrow> wcstring" where
  "remove_internal_separator str conv =
     (let s1 = filter (\<lambda>c. c \<noteq> INTERNAL_SEPARATOR) str in
      if conv then
        map (\<lambda>c. if c = ANY_CHAR then wc CHR ''?''
                 else if c = ANY_STRING \<or> c = ANY_STRING_RECURSIVE then wc CHR ''*''
                 else c) s1
      else s1)"

text \<open>
  Modelled from the spec: \<^verbatim>\<open>wildcard_has(str, true)\<close> of wildcard.cpp, which is not in
  src: with the internal flag, whether a wildcard marker (\<^verbatim>\<open>ANY_CHAR\<close>,
  \<^verbatim>\<open>ANY_STRING\<close>, \<^verbatim>\<open>ANY_STRING_RECURSIVE\<close>) remains in the string.
\<close>

definition wildcard_has_internal :: "wcstring \<Rightarrow> bool" where
  "wildcard_has_internal str \<longleftrightarrow>
     (\<exists>c \<in> set str. c = ANY_CHAR \<or> c = ANY_STRING \<or> c = ANY_STRING_RECURSIVE)"

text \<open>
  What the stage uses from outside the engine: the working directory, the variables
  \<^verbatim>\<open>PATH\<close> and \<^verbatim>\<open>CDPATH\<close> with the test \<^verbatim>\<open>missing_or_empty\<close> of their type,
  \<^verbatim>\<open>path_apply_working_directory\<close>, the matcher \<^verbatim>\<open>wildcard_expand_string\<close> (which
  returns its count and the list \<^verbatim>\<open>expanded\<close> as it leaves it) and the order
  \<^verbatim>\<open>std::sort\<close> puts the completions in.
\<close>

record wildcard_env =
  env_get_pwd_slash :: wcstring
  env_path :: "env_var_t option"
  env_cdpath :: "env_var_t option"
  path_missing_or_empty :: "env_var_t option \<Rightarrow> bool"
  path_apply_working_directory :: "wcstring \<Rightarrow> wcstring \<Rightarrow> wcstring"
  wildcard_expand_string ::
    "wcstring \<Rightarrow> wcstring \<Rightarrow> expand_flags_t \<Rightarrow> completion_t list \<Rightarrow> int \<times> completion_t list"
  natural_sort :: "completion_t list \<Rightarrow> completion_t list"

text \<open>
  Lines 1384-1426: the working directories. Modelled from the spec: the list that
  stands for a missing or empty variable (the constructor of the variable type is not
  in src): an empty \<^verbatim>\<open>CDPATH\<close> gives \<^verbatim>\<open>.\<close>, an empty \<^verbatim>\<open>PATH\<close> gives nothing.
\<close>

definition effective_working_dirs :: "wildcard_env \<Rightarrow> wcstring \<Rightarrow> expand_flags_t \<Rightarrow> wcstring list" where
  "effective_working_dirs W path_to_expand flgs =
     (let working_dir = env_get_pwd_slash W;
          for_cd = (EXPAND_SPECIAL_FOR_CD \<in> flgs);
          for_command = (EXPAND_SPECIAL_FOR_COMMAND \<in> flgs)
      in if \<not> for_cd \<and> \<not> for_command then [working_dir]
         else if string_prefixes_string (wcs ''/'') path_to_expand
                 \<or> string_prefixes_string (wcs ''./'') path_to_expand
                 \<or> string_prefixes_string (wcs ''../'') path_to_expand
                 \<or> (for_command \<and> wc CHR ''/'' \<in> set path_to_expand)
         then [working_dir]
         else
           let paths = (if for_cd then env_cdpath W else env_path W);
               path_list =
                 (if path_missing_or_empty W paths
                  then (if for_cd then [wcs ''.''] else [])
                  else (case paths of Some vals \<Rightarrow> vals | None \<Rightarrow> []))
           in map (\<lambda>next_path. path_apply_working_directory W next_path working_dir) path_list)"

text \<open>Lines 1428-1441: the matcher, once for each working directory.\<close>

fun wildcard_dirs_loop ::
  "wildcard_env \<Rightarrow> wcstring \<Rightarrow> expand_flags_t \<Rightarrow> wcstring list
    \<Rightarrow> expand_error_t \<times> completion_t list \<Rightarrow> expand_error_t \<times> completion_t list" where
  "wildcard_dirs_loop W path_to_expand flgs [] st = st"
| "wildcard_dirs_loop W path_to_expand flgs (wd # rest) (result, expanded) =
     (case wildcard_expand_string W path_to_expand wd flgs expanded of
        (local_wc_res, expanded1) \<Rightarrow>
          if 0 < local_wc_res
          then wildcard_dirs_loop W path_to_expand flgs rest (EXPAND_WILDCARD_MATCH, expanded1)
          else if local_wc_res < 0 then (EXPAND_ERROR, expanded1)
          else wildcard_dirs_loop W path_to_expand flgs rest (result, expanded1))"

text \<open>expand_stage_wildcards (lines 1364-1454).\<close>

definition expand_stage_wildcards :: "wildcard_env \<Rightarrow> expand_stage_t" where
  "expand_stage_wildcards W input out flgs errors =
     (let path_to_expand = remove_internal_separator input (EXPAND_SKIP_WILDCARDS \<in> flgs);
          has_wildcard = wildcard_has_internal path_to_expand
      in if has_wildcard \<and> EXECUTABLES_ONLY \<in> flgs then (EXPAND_OK, out, errors)
         else if (EXPAND_FOR_COMPLETIONS \<in> flgs \<and> EXPAND_SKIP_WILDCARDS \<notin> flgs) \<or> has_wildcard
         then
           (case wildcard_dirs_loop W path_to_expand flgs
                   (effective_working_dirs W path_to_expand flgs)
                   (EXPAND_WILDCARD_NO_MATCH, []) of
              (result, expanded) \<Rightarrow> (result, out @ natural_sort W expanded, errors))
         else
           (EXPAND_OK,
            if EXPAND_FOR_COMPLETIONS \<notin> flgs then append_completion out path_to_expand else out,
            errors))"

section \<open>Command substitution\<close>

text \<open>
  What expand_cmdsubst uses from outside the engine. \<^verbatim>\<open>parse_util_locate_cmdsubst\<close>
  returns -1, 0 or 1 and, when it finds a substitution, the positions of the two
  parentheses in the buffer. \<^verbatim>\<open>exec_subshell\<close> runs a command: it returns its
  status and the lines of output, and changes the state of the shell, of any type
  \<open>'w\<close>, from which \<^verbatim>\<open>proc_get_last_status\<close> reads the last status.
  \<^verbatim>\<open>escape_string\<close> is \<^verbatim>\<open>escape_string(s, 1)\<close>.
\<close>

record 'w cmdsubst_env =
  parse_util_locate_cmdsubst :: "wcstring \<Rightarrow> bool \<Rightarrow> int \<times> nat \<times> nat"
  exec_subshell :: "wcstring \<Rightarrow> 'w \<Rightarrow> int \<times> wcstring list \<times> 'w"
  proc_get_last_status :: "'w \<Rightarrow> int"
  escape_string :: "wcstring \<Rightarrow> wcstring"

text \<open>
  Modelled from the spec: the status the executor sets when the output exceeded its
  size cap (the constant is declared in common.h, which is not in src).
\<close>

definition STATUS_READ_TOO_MUCH :: int where
  "STATUS_READ_TOO_MUCH = 122"

text \<open>
  Lines 1064-1094: the slice that may follow the closing parenthesis, applied to the
  lines. The result is the position of the bad token, or the lines selected and the
  position where the tail begins.
\<close>

definition cmdsubst_slice ::
  "wcstring \<Rightarrow> nat \<Rightarrow> wcstring list \<Rightarrow> nat + (wcstring list \<times> nat)" where
  "cmdsubst_slice cin tail_begin sub_res =
     (if cstr_at cin tail_begin = wc CHR ''['' then
        (case parse_slice (drop tail_begin cin) (length sub_res) of
           Inl bad_pos \<Rightarrow> Inl bad_pos
         | Inr (slice_idx, slice_source_positions, slice_end) \<Rightarrow>
             Inr (select_items sub_res slice_idx, tail_begin + slice_end))
      else Inr (sub_res, tail_begin))"

text \<open>Lines 1103-1131: the two nested loops, over the lines and over the tails.\<close>

fun cmdsubst_tails :: "wcstring \<Rightarrow> wcstring \<Rightarrow> completion_t list \<Rightarrow> completion_t list \<Rightarrow> completion_t list" where
  "cmdsubst_tails prefix sub_item2 [] out_list = out_list"
| "cmdsubst_tails prefix sub_item2 (tail_item # rest) out_list =
     cmdsubst_tails prefix sub_item2 rest
       (append_completion out_list
          (prefix @ [INTERNAL_SEPARATOR] @ sub_item2 @ [INTERNAL_SEPARATOR]
             @ completion tail_item))"

fun cmdsubst_lines ::
  "(wcstring \<Rightarrow> wcstring) \<Rightarrow> wcstring \<Rightarrow> wcstring list \<Rightarrow> completion_t list \<Rightarrow> completion_t list
    \<Rightarrow> completion_t list" where
  "cmdsubst_lines esc prefix [] tail_expand out_list = out_list"
| "cmdsubst_lines esc prefix (sub_item # rest) tail_expand out_list =
     cmdsubst_lines esc prefix rest tail_expand
       (cmdsubst_tails prefix (esc sub_item) tail_expand out_list)"

lemma cmdsubst_slice_tail:
  "cmdsubst_slice cin tail_begin sub_res = Inr (lines, tb) \<Longrightarrow> tail_begin \<le> tb"
  by (auto simp: cmdsubst_slice_def split: if_splits sum.splits)

lemma wcs_of_ptr_length: "length (wcs_of_ptr s k) \<le> length s - k"
  unfolding wcs_of_ptr_def
  by (metis length_drop length_takeWhile_le)

text \<open>
  expand_cmdsubst (lines 1023-1135). The result is \<open>None\<close> when the code stops
  (\<^verbatim>\<open>DIE\<close> on a value of the locate function other than -1, 0 and 1) or when the
  locate function returns positions that are not two positions of the buffer in
  order, on which the pointer arithmetic of the code is undefined. The value the
  recursive call returns is not used. The position of the error for too much data is
  \<^verbatim>\<open>in - paren_begin\<close> as a \<^verbatim>\<open>size_t\<close>.
\<close>

function expand_cmdsubst ::
  "'w cmdsubst_env \<Rightarrow> wcstring \<Rightarrow> completion_t list \<Rightarrow> parse_error_list \<Rightarrow> 'w
    \<Rightarrow> (bool \<times> completion_t list \<times> parse_error_list \<times> 'w) option" where
  "expand_cmdsubst X input out_list errors w =
     (let cin = wcs_of_ptr input 0 in
      case parse_util_locate_cmdsubst X cin False of (ret, paren_begin, paren_end) \<Rightarrow>
        if ret = - 1 then
          Some (False, out_list,
            append_syntax_error errors SOURCE_LOCATION_UNKNOWN (wcs ''Mismatched parenthesis''), w)
        else if ret = 0 then Some (True, append_completion out_list input, errors, w)
        else if ret \<noteq> 1 then None
        else if \<not> (paren_begin < paren_end \<and> paren_end < length cin) then None
        else
          let subcmd = take (paren_end - paren_begin - 1) (drop (paren_begin + 1) cin) in
          case exec_subshell X subcmd w of (rc, sub_res, w1) \<Rightarrow>
            if rc = - 1 then
              Some (False, out_list,
                append_cmdsub_error errors SOURCE_LOCATION_UNKNOWN
                  (wcs ''Unknown error while evaulating command substitution''), w1)
            else if proc_get_last_status X w1 = STATUS_READ_TOO_MUCH then
              Some (False, out_list,
                append_cmdsub_error errors ((2 ^ 64 - paren_begin) mod 2 ^ 64)
                  (wcs ''Too much data emitted by command substitution so it was discarded''
                     @ [10]), w1)
            else
              (case cmdsubst_slice cin (paren_end + 1) sub_res of
                 Inl bad_pos \<Rightarrow>
                   Some (False, out_list,
                     append_syntax_error errors (paren_end + 1 + bad_pos)
                       (wcs ''Invalid index value''), w1)
               | Inr (sub_res1, tail_begin) \<Rightarrow>
                   (case expand_cmdsubst X (wcs_of_ptr cin tail_begin) [] errors w1 of
                      None \<Rightarrow> None
                    | Some (tail_ok, tail_expand, errors1, w2) \<Rightarrow>
                        Some (proc_get_last_status X w2 \<noteq> STATUS_READ_TOO_MUCH,
                          cmdsubst_lines (escape_string X) (take paren_begin cin) sub_res1
                            tail_expand out_list,
                          errors1, w2))))"
  by pat_completeness auto
termination
proof (relation "measure (\<lambda>(X, input, out_list, errors, w). length input)")
  show "wf (measure (\<lambda>(X, input, out_list, errors, w). length input))" by simp
next
  fix X :: "'w cmdsubst_env" and input cin :: wcstring and out_list :: "completion_t list"
    and errors :: parse_error_list and w :: 'w
    and paren_begin paren_end tail_begin :: nat and sub_res1 :: "wcstring list" and sub_res :: "wcstring list"
    and xe :: "wcstring list \<times> nat"
  assume cin: "cin = wcs_of_ptr input 0"
    and pe: "\<not> \<not> (paren_begin < paren_end \<and> paren_end < length cin)"
    and sl: "cmdsubst_slice cin (paren_end + 1) sub_res = Inr xe"
    and xe: "(sub_res1, tail_begin) = xe"
  from sl xe have "paren_end + 1 \<le> tail_begin"
    using cmdsubst_slice_tail [of cin "paren_end + 1" sub_res sub_res1 tail_begin] by simp
  moreover have "length (wcs_of_ptr cin tail_begin) \<le> length cin - tail_begin"
    by (rule wcs_of_ptr_length)
  moreover have "length cin \<le> length input"
    using wcs_of_ptr_length [of input 0] by (simp add: cin)
  moreover from pe have "paren_end < length cin" by simp
  ultimately have "length (wcs_of_ptr cin tail_begin) < length input"
    by linarith
  then show "((X, wcs_of_ptr cin tail_begin, [], errors, w1), X, input, out_list, errors, w)
      \<in> measure (\<lambda>(X, input, out_list, errors, w). length input)" for w1
    by simp
qed

declare expand_cmdsubst.simps [simp del]

section \<open>Properties of slices\<close>

lemmas eval_defs =
  wcs_def wc_def skip_while_def iswspace_def iswdigit_def iswalnum_def cstr_at_def
  digits_value_def LONG_MAX_def LONG_MIN_def EINVAL_def ERANGE_def Let_def marker_defs

lemma push_range_up: "push_range False i2 jjj = [jjj..i2]"
proof (induction "nat (i2 - jjj + 1)" arbitrary: jjj)
  case 0
  then show ?case by (subst push_range.simps) simp
next
  case (Suc k)
  then have "push_range False i2 (jjj + 1) = [jjj + 1..i2]" by simp
  with Suc.hyps(2) show ?case
    by (subst push_range.simps) (simp add: upto_rec1)
qed

lemma push_range_down: "push_range True i2 jjj = rev [i2..jjj]"
proof (induction "nat (jjj - i2 + 1)" arbitrary: jjj)
  case 0
  then show ?case by (subst push_range.simps) simp
next
  case (Suc k)
  then have "push_range True i2 (jjj - 1) = rev [i2..jjj - 1]" by simp
  with Suc.hyps(2) show ?case
    by (subst push_range.simps) (simp add: upto_rec2)
qed

text \<open>One turn of the loop of parse_slice, by the kind of token it reads.\<close>

lemma parse_slice_loop_close:
  assumes "skip_while (\<lambda>c. iswspace c \<or> c = INTERNAL_SEPARATOR) s pos = pos1"
    and "cstr_at s pos1 = wc CHR '']''"
  shows "parse_slice_loop s sz pos idx sp = Inr (idx, sp, pos1 + 1)"
  by (subst parse_slice_loop.simps) (simp only: Let_def assms if_True simp_thms)

lemma parse_slice_loop_bad_index:
  assumes "skip_while (\<lambda>c. iswspace c \<or> c = INTERNAL_SEPARATOR) s pos = pos1"
    and "cstr_at s pos1 \<noteq> wc CHR '']''"
    and "fish_wcstol s pos1 = (tmp, end1, errno1)" and "0 < errno1"
  shows "parse_slice_loop s sz pos idx sp = Inl pos1"
  by (subst parse_slice_loop.simps) (simp only: Let_def assms if_True if_False prod.case simp_thms)

lemma parse_slice_loop_index:
  assumes "skip_while (\<lambda>c. iswspace c \<or> c = INTERNAL_SEPARATOR) s pos = pos1"
    and "cstr_at s pos1 \<noteq> wc CHR '']''"
    and "fish_wcstol s pos1 = (tmp, end1, errno1)" and "\<not> 0 < errno1"
    and "skip_while (\<lambda>c. c = INTERNAL_SEPARATOR) s end1 = pos2"
    and "\<not> (cstr_at s pos2 = wc CHR ''.'' \<and> cstr_at s (pos2 + 1) = wc CHR ''.'')"
  shows "parse_slice_loop s sz pos idx sp =
    parse_slice_loop s sz pos2 (idx @ [if - 1 < tmp then tmp else sz + tmp + 1]) (sp @ [pos1])"
  by (subst parse_slice_loop.simps) (simp only: Let_def assms if_True if_False prod.case simp_thms)

lemma parse_slice_loop_bad_range:
  assumes "skip_while (\<lambda>c. iswspace c \<or> c = INTERNAL_SEPARATOR) s pos = pos1"
    and "cstr_at s pos1 \<noteq> wc CHR '']''"
    and "fish_wcstol s pos1 = (tmp, end1, errno1)" and "\<not> 0 < errno1"
    and "skip_while (\<lambda>c. c = INTERNAL_SEPARATOR) s end1 = pos2"
    and "cstr_at s pos2 = wc CHR ''.'' \<and> cstr_at s (pos2 + 1) = wc CHR ''.''"
    and "skip_while (\<lambda>c. c = INTERNAL_SEPARATOR) s (pos2 + 2) = number_start"
    and "fish_wcstol s number_start = (tmp1, end2, errno2)" and "0 < errno2"
  shows "parse_slice_loop s sz pos idx sp = Inl number_start"
  by (subst parse_slice_loop.simps) (simp only: Let_def assms if_True if_False prod.case simp_thms)

lemma parse_slice_loop_range:
  assumes "skip_while (\<lambda>c. iswspace c \<or> c = INTERNAL_SEPARATOR) s pos = pos1"
    and "cstr_at s pos1 \<noteq> wc CHR '']''"
    and "fish_wcstol s pos1 = (tmp, end1, errno1)" and "\<not> 0 < errno1"
    and "skip_while (\<lambda>c. c = INTERNAL_SEPARATOR) s end1 = pos2"
    and "cstr_at s pos2 = wc CHR ''.'' \<and> cstr_at s (pos2 + 1) = wc CHR ''.''"
    and "skip_while (\<lambda>c. c = INTERNAL_SEPARATOR) s (pos2 + 2) = number_start"
    and "fish_wcstol s number_start = (tmp1, end2, errno2)" and "\<not> 0 < errno2"
  shows "parse_slice_loop s sz pos idx sp =
    (let i1 = (if - 1 < tmp then tmp else sz + tmp + 1);
         i2 = (if - 1 < tmp1 then tmp1 else sz + tmp1 + 1);
         pushed = (if sz < i1 \<and> sz < i2 then []
                   else push_range (min i2 sz < min i1 sz) (min i2 sz) (min i1 sz))
     in parse_slice_loop s sz end2 (idx @ pushed) (sp @ replicate (length pushed) number_start))"
proof -
  define i1 where "i1 = (if - 1 < tmp then tmp else sz + tmp + 1)"
  define i2 where "i2 = (if - 1 < tmp1 then tmp1 else sz + tmp1 + 1)"
  have m: "\<And>i. (if i < sz then i else sz) = min i sz" by (simp add: min_def)
  have step: "parse_slice_loop s sz pos idx sp =
    (if sz < i1 \<and> sz < i2 then parse_slice_loop s sz end2 idx sp
     else parse_slice_loop s sz end2
            (idx @ push_range (min i2 sz < min i1 sz) (min i2 sz) (min i1 sz))
            (sp @ replicate (length (push_range (min i2 sz < min i1 sz) (min i2 sz) (min i1 sz)))
               number_start))"
    unfolding i1_def i2_def
    by (subst parse_slice_loop.simps) (simp only: Let_def assms if_True if_False prod.case simp_thms m)
  show ?thesis
    unfolding Let_def i1_def [symmetric] i2_def [symmetric] step
    by (cases "sz < i1 \<and> sz < i2") auto
qed

subsection \<open>The range policy\<close>

text \<open>
  The policy in the words of the specification. A negative index \<open>k\<close> stands for
  \<open>n + k + 1\<close>. A range whose two endpoints, so converted, both exceed \<open>n\<close>
  gives nothing; otherwise each endpoint is clamped to \<open>n\<close> and the range between
  the clamped endpoints is listed, both ends included, upwards when the first
  converted endpoint is at most the second and downwards otherwise.
\<close>

definition slice_index :: "int \<Rightarrow> int \<Rightarrow> int" where
  "slice_index n k = (if k < 0 then n + k + 1 else k)"

definition range_policy :: "int \<Rightarrow> int \<Rightarrow> int \<Rightarrow> int list" where
  "range_policy n a b =
     (let i1 = slice_index n a; i2 = slice_index n b in
      if n < i1 \<and> n < i2 then []
      else if i1 \<le> i2 then [min i1 n..min i2 n]
      else rev [min i2 n..min i1 n])"

lemma range_policy_push_range:
  "(if n < (if - 1 < a then a else n + a + 1) \<and> n < (if - 1 < b then b else n + b + 1) then []
    else push_range
      (min (if - 1 < b then b else n + b + 1) n < min (if - 1 < a then a else n + a + 1) n)
      (min (if - 1 < b then b else n + b + 1) n)
      (min (if - 1 < a then a else n + a + 1) n)) = range_policy n a b"
proof -
  define i1 where "i1 = slice_index n a"
  define i2 where "i2 = slice_index n b"
  define c1 where "c1 = min i1 n"
  define c2 where "c2 = min i2 n"
  define down where "down \<longleftrightarrow> c2 < c1"
  have c: "(if - 1 < a then a else n + a + 1) = i1" "(if - 1 < b then b else n + b + 1) = i2"
    by (auto simp: i1_def i2_def slice_index_def)
  have key: "push_range down c2 c1 = (if i1 \<le> i2 then [c1..c2] else rev [c2..c1])"
    if "\<not> (n < i1 \<and> n < i2)"
  proof (cases down)
    case True
    then have "\<not> i1 \<le> i2" by (auto simp: down_def c1_def c2_def min_def split: if_splits)
    with True show ?thesis by (simp add: push_range_down)
  next
    case False
    show ?thesis
    proof (cases "i1 \<le> i2")
      case True
      with False show ?thesis by (simp add: push_range_up)
    next
      case gt: False
      with False that have "c1 = c2"
        by (auto simp: down_def c1_def c2_def min_def split: if_splits)
      with False gt show ?thesis by (simp add: push_range_up)
    qed
  qed
  have l: "range_policy n a b =
      (if n < i1 \<and> n < i2 then [] else if i1 \<le> i2 then [c1..c2] else rev [c2..c1])"
    by (simp only: range_policy_def Let_def i1_def i2_def c1_def c2_def)
  show ?thesis
    unfolding c l c1_def [symmetric] c2_def [symmetric] down_def [symmetric]
    using key by (cases "n < i1 \<and> n < i2") auto
qed

lemma parse_slice_loop_range_policy:
  assumes "skip_while (\<lambda>c. iswspace c \<or> c = INTERNAL_SEPARATOR) s pos = pos1"
    and "cstr_at s pos1 \<noteq> wc CHR '']''"
    and "fish_wcstol s pos1 = (a, end1, errno1)" and "\<not> 0 < errno1"
    and "skip_while (\<lambda>c. c = INTERNAL_SEPARATOR) s end1 = pos2"
    and "cstr_at s pos2 = wc CHR ''.'' \<and> cstr_at s (pos2 + 1) = wc CHR ''.''"
    and "skip_while (\<lambda>c. c = INTERNAL_SEPARATOR) s (pos2 + 2) = number_start"
    and "fish_wcstol s number_start = (b, end2, errno2)" and "\<not> 0 < errno2"
  shows "parse_slice_loop s sz pos idx sp =
    parse_slice_loop s sz end2 (idx @ range_policy sz a b)
      (sp @ replicate (length (range_policy sz a b)) number_start)"
  using parse_slice_loop_range [OF assms, of sz idx sp]
  unfolding Let_def range_policy_push_range .

subsection \<open>Integers as they are written in a slice\<close>

text \<open>
  The decimal text of an integer, as it stands in a slice: the digits, after a minus
  sign when the integer is negative.
\<close>

fun dec :: "nat \<Rightarrow> wcstring" where
  "dec n = (if n < 10 then [48 + n] else dec (n div 10) @ [48 + n mod 10])"

declare dec.simps [simp del]

definition int_str :: "int \<Rightarrow> wcstring" where
  "int_str i = (if i < 0 then wc CHR ''-'' # dec (nat (- i)) else dec (nat i))"

lemma dec_digits: "c \<in> set (dec n) \<Longrightarrow> iswdigit c"
proof (induction n arbitrary: c rule: dec.induct)
  case (1 n)
  then show ?case
    by (subst (asm) dec.simps) (auto simp: iswdigit_def split: if_splits)
qed

lemma dec_nonempty: "dec n \<noteq> []"
  by (subst dec.simps) simp

lemma digits_value_snoc: "digits_value (ds @ [d]) = 10 * digits_value ds + int (d - 48)"
  by (simp add: digits_value_def)

lemma digits_value_dec: "digits_value (dec n) = int n"
proof (induction n rule: dec.induct)
  case (1 n)
  show ?case
  proof (cases "n < 10")
    case True
    then show ?thesis by (subst dec.simps) (simp add: digits_value_def)
  next
    case False
    with 1 have "digits_value (dec (n div 10)) = int (n div 10)" by simp
    moreover have "10 * int (n div 10) + int (n mod 10) = int n"
      by presburger
    ultimately show ?thesis using False
      by (subst dec.simps) (simp add: digits_value_snoc)
  qed
qed

lemma hd_dec_digit: "iswdigit (hd (dec n))"
  using dec_digits [of "hd (dec n)" n] dec_nonempty [of n] by simp


lemma skip_while_stop:
  assumes "pos = length pre" and "rest = [] \<or> \<not> P (hd rest)"
  shows "skip_while P (pre @ rest) pos = pos"
  using assms by (cases rest) (auto simp: skip_while_def)

lemma cstr_at_append: "cstr_at (pre @ rest) (length pre) = (if rest = [] then 0 else hd rest)"
  by (cases rest) (auto simp: cstr_at_def nth_append)

lemma takeWhile_digits_dec:
  assumes "rest = [] \<or> \<not> iswdigit (hd rest)"
  shows "takeWhile iswdigit (dec n @ rest) = dec n"
proof -
  have "takeWhile iswdigit (dec n @ rest) = dec n @ takeWhile iswdigit rest"
    by (rule takeWhile_append2) (rule dec_digits)
  with assms show ?thesis by (cases rest) auto
qed

lemma fish_wcstol_number:
  assumes "skip_while iswspace s pos = p" and "cstr_at s p \<noteq> 0"
    and "(if cstr_at s p = wc CHR ''-'' \<or> cstr_at s p = wc CHR ''+'' then p + 1 else p) = q"
    and "takeWhile iswdigit (drop q s) = ds" and "ds \<noteq> []"
    and "(if cstr_at s p = wc CHR ''-'' then - digits_value ds else digits_value ds) = v"
    and "skip_while iswspace s (q + length ds) = e"
    and "\<not> v < LONG_MIN" and "\<not> LONG_MAX < v"
  shows "fish_wcstol s pos = (v, e, if cstr_at s e \<noteq> 0 then - 1 else 0)"
  by (simp only: fish_wcstol_def Let_def assms if_True if_False simp_thms)

lemma fish_wcstol_int_str:
  assumes pos: "pos = length pre"
    and range: "LONG_MIN \<le> i" "i \<le> LONG_MAX"
    and rest: "rest \<noteq> []" "\<not> iswdigit (hd rest)" "\<not> iswspace (hd rest)" "hd rest \<noteq> 0"
  shows "fish_wcstol (pre @ int_str i @ rest) pos = (i, pos + length (int_str i), - 1)"
proof -
  let ?s = "pre @ int_str i @ rest"
  have ne: "int_str i \<noteq> []" by (simp add: int_str_def dec_nonempty)
  have h: "hd (int_str i) = wc CHR ''-'' \<or> iswdigit (hd (int_str i))"
    by (simp add: int_str_def hd_dec_digit)
  then have nsp: "\<not> iswspace (hd (int_str i @ rest))"
    using ne by (auto simp: iswspace_def iswdigit_def wc_def)
  have p: "skip_while iswspace ?s pos = pos"
    using pos nsp ne by (intro skip_while_stop) auto
  have c: "cstr_at ?s pos = hd (int_str i)"
    using ne pos cstr_at_append [of pre "int_str i @ rest"] by simp
  from h have nz: "cstr_at ?s pos \<noteq> 0" unfolding c by (auto simp: wc_def iswdigit_def)
  define n where "n = nat \<bar>i\<bar>"
  define q where "q = (if i < 0 then pos + 1 else pos)"
  have istr: "int_str i = (if i < 0 then wc CHR ''-'' # dec n else dec n)"
    by (auto simp: int_str_def n_def)
  have sgn: "cstr_at ?s pos = wc CHR ''-'' \<longleftrightarrow> i < 0"
    unfolding c using hd_dec_digit [of n] by (auto simp: istr wc_def iswdigit_def)
  have plus: "cstr_at ?s pos \<noteq> wc CHR ''+''"
    unfolding c using hd_dec_digit [of n] by (auto simp: istr wc_def iswdigit_def)
  have q: "(if cstr_at ?s pos = wc CHR ''-'' \<or> cstr_at ?s pos = wc CHR ''+'' then pos + 1 else pos) = q"
    by (simp add: sgn plus q_def)
  have split: "?s = (if i < 0 then pre @ [wc CHR ''-''] else pre) @ dec n @ rest"
    by (simp add: istr)
  have lq: "length (if i < 0 then pre @ [wc CHR ''-''] else pre) = q"
    by (simp add: q_def pos)
  have d: "drop q ?s = dec n @ rest"
    by (subst split) (simp add: lq [symmetric] del: length_append)
  have tw: "takeWhile iswdigit (drop q ?s) = dec n"
    unfolding d using rest by (intro takeWhile_digits_dec) simp
  have split2: "?s = ((if i < 0 then pre @ [wc CHR ''-''] else pre) @ dec n) @ rest"
    by (simp add: istr)
  have lq2: "length ((if i < 0 then pre @ [wc CHR ''-''] else pre) @ dec n) = q + length (dec n)"
    using lq by simp
  have e: "skip_while iswspace ?s (q + length (dec n)) = q + length (dec n)"
    by (subst split2, rule skip_while_stop) (use lq2 rest in auto)
  have ce: "cstr_at ?s (q + length (dec n)) = hd rest"
    by (subst split2) (use rest in \<open>simp only: lq2 [symmetric] cstr_at_append if_False\<close>)
  have v: "(if cstr_at ?s pos = wc CHR ''-'' then - digits_value (dec n) else digits_value (dec n)) = i"
    by (simp add: sgn digits_value_dec n_def)
  have len: "q + length (dec n) = pos + length (int_str i)"
    by (simp add: q_def istr)
  have "fish_wcstol ?s pos =
      (i, q + length (dec n), if cstr_at ?s (q + length (dec n)) \<noteq> 0 then - 1 else 0)"
    using range by (intro fish_wcstol_number [OF p nz q tw dec_nonempty v e]) auto
  moreover have "cstr_at ?s (pos + length (int_str i)) = hd rest"
    using ce unfolding len .
  ultimately show ?thesis using rest unfolding len by simp
qed

lemma hd_int_str: "hd (int_str i) = wc CHR ''-'' \<or> iswdigit (hd (int_str i))"
  by (simp add: int_str_def hd_dec_digit)

lemma int_str_nonempty: "int_str i \<noteq> []"
  by (simp add: int_str_def dec_nonempty)

lemma parse_slice_single_index:
  assumes "LONG_MIN \<le> i" and "i \<le> LONG_MAX"
  shows "parse_slice (wcs ''['' @ int_str i @ wcs '']'' @ rest) n =
    Inr ([if - 1 < i then i else int n + i + 1], [1], 2 + length (int_str i))"
proof -
  let ?s = "wcs ''['' @ int_str i @ wcs '']'' @ rest"
  let ?e = "1 + length (int_str i)"
  have l1: "length (wcs ''['') = 1" by (simp add: wcs_def)
  have hd1: "hd (int_str i @ wcs '']'' @ rest) = hd (int_str i)"
    using int_str_nonempty by simp
  have a: "skip_while (\<lambda>c. iswspace c \<or> c = INTERNAL_SEPARATOR) ?s 1 = 1"
    using hd_int_str [of i] int_str_nonempty [of i]
    by (intro skip_while_stop) (auto simp: l1 iswspace_def iswdigit_def wc_def marker_defs)
  have b: "cstr_at ?s 1 \<noteq> wc CHR '']''"
    using cstr_at_append [of "wcs ''[''" "int_str i @ wcs '']'' @ rest"]
      hd_int_str [of i] int_str_nonempty [of i]
    by (auto simp: l1 hd1 wc_def iswdigit_def)
  have c: "fish_wcstol ?s 1 = (i, ?e, - 1)"
    using assms by (intro fish_wcstol_int_str) (auto simp: wcs_def wc_def iswdigit_def iswspace_def)
  have n1: "\<not> 0 < (- 1 :: int)" by simp
  have split: "?s = (wcs ''['' @ int_str i) @ wcs '']'' @ rest" by simp
  have le: "length (wcs ''['' @ int_str i) = ?e" by (simp add: l1)
  have d: "skip_while (\<lambda>c. c = INTERNAL_SEPARATOR) ?s ?e = ?e"
    by (subst split, rule skip_while_stop) (auto simp: le wcs_def wc_def marker_defs)
  have ce: "cstr_at ?s ?e = wc CHR '']''"
    using cstr_at_append [of "wcs ''['' @ int_str i" "wcs '']'' @ rest"] by (simp add: wcs_def)
  then have nd: "\<not> (cstr_at ?s ?e = wc CHR ''.'' \<and> cstr_at ?s (?e + 1) = wc CHR ''.'')"
    by (simp add: wc_def)
  have h: "skip_while (\<lambda>c. iswspace c \<or> c = INTERNAL_SEPARATOR) ?s ?e = ?e"
    by (subst split, rule skip_while_stop) (auto simp: le wcs_def wc_def marker_defs iswspace_def)
  have "parse_slice_loop ?s (int n) 1 [] [] =
      parse_slice_loop ?s (int n) ?e ([] @ [if - 1 < i then i else int n + i + 1]) ([] @ [1])"
    by (rule parse_slice_loop_index [OF a b c n1 d nd])
  also have "\<dots> = Inr ([] @ [if - 1 < i then i else int n + i + 1], [] @ [1], ?e + 1)"
    by (rule parse_slice_loop_close [OF h ce])
  finally show ?thesis by (simp add: parse_slice_def)
qed

text \<open>A slice that is a single range, written in decimal.\<close>

lemma parse_slice_single_range:
  assumes "LONG_MIN \<le> a" and "a \<le> LONG_MAX" and "LONG_MIN \<le> b" and "b \<le> LONG_MAX"
  shows "parse_slice (wcs ''['' @ int_str a @ wcs ''..'' @ int_str b @ wcs '']'' @ rest) n =
    Inr (range_policy (int n) a b,
         replicate (length (range_policy (int n) a b)) (3 + length (int_str a)),
         4 + length (int_str a) + length (int_str b))"
proof -
  let ?s = "wcs ''['' @ int_str a @ wcs ''..'' @ int_str b @ wcs '']'' @ rest"
  let ?e1 = "1 + length (int_str a)"
  let ?ns = "3 + length (int_str a)"
  let ?e2 = "3 + length (int_str a) + length (int_str b)"
  have l1: "length (wcs ''['') = 1" by (simp add: wcs_def)
  have nea: "int_str a \<noteq> []" and neb: "int_str b \<noteq> []" by (rule int_str_nonempty)+
  have p1: "skip_while (\<lambda>c. iswspace c \<or> c = INTERNAL_SEPARATOR) ?s 1 = 1"
    using hd_int_str [of a] nea
    by (intro skip_while_stop) (auto simp: l1 iswspace_def iswdigit_def wc_def marker_defs)
  have c1: "cstr_at ?s 1 \<noteq> wc CHR '']''"
    using cstr_at_append [of "wcs ''[''" "int_str a @ wcs ''..'' @ int_str b @ wcs '']'' @ rest"]
      hd_int_str [of a] nea
    by (auto simp: l1 wc_def iswdigit_def)
  have w1: "fish_wcstol ?s 1 = (a, ?e1, - 1)"
    using assms(1,2)
    by (intro fish_wcstol_int_str) (auto simp: wcs_def wc_def iswdigit_def iswspace_def)
  have n: "\<not> 0 < (- 1 :: int)" by simp
  have s2: "?s = (wcs ''['' @ int_str a) @ (wcs ''..'' @ int_str b @ wcs '']'' @ rest)" by simp
  have le1: "length (wcs ''['' @ int_str a) = ?e1" by (simp add: l1)
  have p2: "skip_while (\<lambda>c. c = INTERNAL_SEPARATOR) ?s ?e1 = ?e1"
    by (subst s2, rule skip_while_stop) (auto simp: le1 wcs_def wc_def marker_defs)
  have split3: "?s = (wcs ''['' @ int_str a @ wcs ''.'') @ (wcs ''.'' @ int_str b @ wcs '']'' @ rest)"
    by (simp add: wcs_def)
  have dots: "cstr_at ?s ?e1 = wc CHR ''.'' \<and> cstr_at ?s (?e1 + 1) = wc CHR ''.''"
    using cstr_at_append [of "wcs ''['' @ int_str a" "wcs ''..'' @ int_str b @ wcs '']'' @ rest"]
      cstr_at_append [of "wcs ''['' @ int_str a @ wcs ''.''" "wcs ''.'' @ int_str b @ wcs '']'' @ rest"]
    by (simp add: wcs_def)
  have s4: "?s = (wcs ''['' @ int_str a @ wcs ''..'') @ (int_str b @ wcs '']'' @ rest)" by simp
  have le4: "length (wcs ''['' @ int_str a @ wcs ''..'') = ?ns" by (simp add: wcs_def)
  have e12: "?e1 + 2 = ?ns" by simp
  have p3: "skip_while (\<lambda>c. c = INTERNAL_SEPARATOR) ?s (?e1 + 2) = ?ns"
    unfolding e12
    using hd_int_str [of b] neb
    by (subst s4, intro skip_while_stop)
      (auto simp: wcs_def wc_def iswdigit_def marker_defs)
  have w2: "fish_wcstol ?s ?ns = (b, ?ns + length (int_str b), - 1)"
    using assms(3,4)
    by (subst s4, intro fish_wcstol_int_str)
      (auto simp: le4 wcs_def wc_def iswdigit_def iswspace_def)
  have s5: "?s = (wcs ''['' @ int_str a @ wcs ''..'' @ int_str b) @ (wcs '']'' @ rest)" by simp
  have le5: "length (wcs ''['' @ int_str a @ wcs ''..'' @ int_str b) = ?e2" by (simp add: wcs_def)
  have p4: "skip_while (\<lambda>c. iswspace c \<or> c = INTERNAL_SEPARATOR) ?s ?e2 = ?e2"
    by (subst s5, rule skip_while_stop) (auto simp: le5 wcs_def wc_def marker_defs iswspace_def)
  have c4: "cstr_at ?s ?e2 = wc CHR '']''"
    using cstr_at_append [of "wcs ''['' @ int_str a @ wcs ''..'' @ int_str b" "wcs '']'' @ rest"]
    by (simp add: wcs_def numeral_3_eq_3)
  have "parse_slice_loop ?s (int n) 1 [] [] =
      parse_slice_loop ?s (int n) (?ns + length (int_str b)) ([] @ range_policy (int n) a b)
        ([] @ replicate (length (range_policy (int n) a b)) ?ns)"
    by (rule parse_slice_loop_range_policy [OF p1 c1 w1 n p2 dots p3 w2 n])
  also have "\<dots> = Inr ([] @ range_policy (int n) a b,
      [] @ replicate (length (range_policy (int n) a b)) ?ns, ?e2 + 1)"
    by (rule parse_slice_loop_close [OF p4 c4])
  finally show ?thesis by (simp add: parse_slice_def)
qed

subsection \<open>The policy on parse_slice\<close>

text \<open>The two examples of the specification, on a list of three elements.\<close>

lemma ex_1_10_a: "skip_while (\<lambda>c. iswspace c \<or> c = INTERNAL_SEPARATOR) (wcs ''[1..10]'') 1 = 1"
  by (simp add: eval_defs)

lemma ex_1_10_b: "cstr_at (wcs ''[1..10]'') 1 \<noteq> wc CHR '']''"
  by (simp add: eval_defs)

lemma ex_1_10_c: "fish_wcstol (wcs ''[1..10]'') 1 = (1, 2, - 1)"
  by (simp add: eval_defs fish_wcstol_def)

lemma ex_1_10_d: "skip_while (\<lambda>c. c = INTERNAL_SEPARATOR) (wcs ''[1..10]'') 2 = 2"
  by (simp add: eval_defs)

lemma ex_1_10_e:
  "cstr_at (wcs ''[1..10]'') 2 = wc CHR ''.'' \<and> cstr_at (wcs ''[1..10]'') (2 + 1) = wc CHR ''.''"
  by (simp add: eval_defs)

lemma ex_1_10_f: "skip_while (\<lambda>c. c = INTERNAL_SEPARATOR) (wcs ''[1..10]'') (2 + 2) = 4"
  by (simp add: eval_defs)

lemma ex_1_10_g: "fish_wcstol (wcs ''[1..10]'') 4 = (10, 6, - 1)"
  by (simp add: eval_defs fish_wcstol_def)

lemma ex_1_10_h: "skip_while (\<lambda>c. iswspace c \<or> c = INTERNAL_SEPARATOR) (wcs ''[1..10]'') 6 = 6"
  by (simp add: eval_defs)

lemma ex_1_10_i: "cstr_at (wcs ''[1..10]'') 6 = wc CHR '']''"
  by (simp add: eval_defs)

lemma range_policy_3_1_10: "range_policy 3 1 10 = [1, 2, 3]"
  by (simp add: range_policy_def slice_index_def upto_rec1)

lemma range_policy_3_9_10: "range_policy 3 9 10 = []"
  by (simp add: range_policy_def slice_index_def)

lemma parse_slice_1_10: "parse_slice (wcs ''[1..10]'') 3 = Inr ([1, 2, 3], [4, 4, 4], 7)"
proof -
  have "parse_slice_loop (wcs ''[1..10]'') 3 1 [] [] =
    parse_slice_loop (wcs ''[1..10]'') 3 6 ([] @ range_policy 3 1 10)
      ([] @ replicate (length (range_policy 3 1 10)) 4)"
    by (rule parse_slice_loop_range_policy
          [OF ex_1_10_a ex_1_10_b ex_1_10_c _ ex_1_10_d ex_1_10_e ex_1_10_f ex_1_10_g])
       simp_all
  also have "\<dots> = Inr ([1, 2, 3], [4, 4, 4], 7)"
    using parse_slice_loop_close [OF ex_1_10_h ex_1_10_i]
    by (simp add: range_policy_3_1_10 numeral_3_eq_3)
  finally show ?thesis by (simp add: parse_slice_def)
qed

lemma parse_slice_9_10: "parse_slice (wcs ''[9..10]'') 3 = Inr ([], [], 7)"
proof -
  have a: "skip_while (\<lambda>c. iswspace c \<or> c = INTERNAL_SEPARATOR) (wcs ''[9..10]'') 1 = 1"
    and b: "cstr_at (wcs ''[9..10]'') 1 \<noteq> wc CHR '']''"
    and d: "skip_while (\<lambda>c. c = INTERNAL_SEPARATOR) (wcs ''[9..10]'') 2 = 2"
    and e: "cstr_at (wcs ''[9..10]'') 2 = wc CHR ''.'' \<and>
            cstr_at (wcs ''[9..10]'') (2 + 1) = wc CHR ''.''"
    and f: "skip_while (\<lambda>c. c = INTERNAL_SEPARATOR) (wcs ''[9..10]'') (2 + 2) = 4"
    and h: "skip_while (\<lambda>c. iswspace c \<or> c = INTERNAL_SEPARATOR) (wcs ''[9..10]'') 6 = 6"
    and i: "cstr_at (wcs ''[9..10]'') 6 = wc CHR '']''"
    by (simp_all add: eval_defs)
  have c: "fish_wcstol (wcs ''[9..10]'') 1 = (9, 2, - 1)"
    and g: "fish_wcstol (wcs ''[9..10]'') 4 = (10, 6, - 1)"
    by (simp_all add: eval_defs fish_wcstol_def)
  have "parse_slice_loop (wcs ''[9..10]'') 3 1 [] [] =
    parse_slice_loop (wcs ''[9..10]'') 3 6 ([] @ range_policy 3 9 10)
      ([] @ replicate (length (range_policy 3 9 10)) 4)"
    by (rule parse_slice_loop_range_policy [OF a b c _ d e f g]) simp_all
  also have "\<dots> = Inr ([], [], 7)"
    using parse_slice_loop_close [OF h i] by (simp add: range_policy_3_9_10)
  finally show ?thesis by (simp add: parse_slice_def)
qed

text \<open>
  C1. In every turn of the loop of parse_slice that reads a range token \<open>a..b\<close>
  (an integer, two dots, an integer, with the separators the code allows), for
  every array size \<open>n\<close>, the indexes pushed are those of the policy: with the
  negative endpoints converted (\<open>k\<close> to \<open>n + k + 1\<close>), nothing when both
  endpoints exceed \<open>n\<close>, and otherwise every index between the endpoints clamped
  to \<open>n\<close>, both included, ascending when the first converted endpoint is at most
  the second and descending otherwise; each with the source position of the
  second number. The loop then goes on behind the token. In particular the slice
  that is the single range \<open>a..b\<close> written in decimal, for integers that fit a
  \<^verbatim>\<open>long\<close>, parses to the indexes of the policy; and for a list of three
  elements, \<^verbatim>\<open>[9..10]\<close> gives no index and \<^verbatim>\<open>[1..10]\<close> the indexes 1, 2, 3.
\<close>

theorem parse_slice_range_policy:
  assumes "skip_while (\<lambda>c. iswspace c \<or> c = INTERNAL_SEPARATOR) s pos = pos1"
    and "cstr_at s pos1 \<noteq> wc CHR '']''"
    and "fish_wcstol s pos1 = (a, end1, errno1)" and "\<not> 0 < errno1"
    and "skip_while (\<lambda>c. c = INTERNAL_SEPARATOR) s end1 = pos2"
    and "cstr_at s pos2 = wc CHR ''.'' \<and> cstr_at s (pos2 + 1) = wc CHR ''.''"
    and "skip_while (\<lambda>c. c = INTERNAL_SEPARATOR) s (pos2 + 2) = number_start"
    and "fish_wcstol s number_start = (b, end2, errno2)" and "\<not> 0 < errno2"
  shows "parse_slice_loop s (int n) pos idx sp =
      parse_slice_loop s (int n) end2 (idx @ range_policy (int n) a b)
        (sp @ replicate (length (range_policy (int n) a b)) number_start)
    \<and> (LONG_MIN \<le> a' \<and> a' \<le> LONG_MAX \<and> LONG_MIN \<le> b' \<and> b' \<le> LONG_MAX \<longrightarrow>
        parse_slice (wcs ''['' @ int_str a' @ wcs ''..'' @ int_str b' @ wcs '']'') m =
          Inr (range_policy (int m) a' b',
               replicate (length (range_policy (int m) a' b')) (3 + length (int_str a')),
               4 + length (int_str a') + length (int_str b')))
    \<and> parse_slice (wcs ''[9..10]'') 3 = Inr ([], [], 7)
    \<and> parse_slice (wcs ''[1..10]'') 3 = Inr ([1, 2, 3], [4, 4, 4], 7)"
  using parse_slice_loop_range_policy [OF assms] parse_slice_9_10 parse_slice_1_10
    parse_slice_single_range [of a' b' "[]" m]
  by simp

lemma int_str_3: "int_str 3 = wcs ''3''" and int_str_m3: "int_str (- 3) = wcs ''-3''"
  by (simp_all add: int_str_def dec.simps wcs_def wc_def)

lemma range_policy_3_3_m3: "range_policy 3 3 (- 3) = [3, 2, 1]"
  by (simp add: range_policy_def slice_index_def upto_rec1)

theorem parse_slice_range_policy_witness:
  "fish_wcstol (wcs ''[1..10]'') 1 = (1, 2, - 1)
   \<and> fish_wcstol (wcs ''[1..10]'') 4 = (10, 6, - 1)
   \<and> parse_slice_loop (wcs ''[1..10]'') (int 3) 1 [] [] =
       parse_slice_loop (wcs ''[1..10]'') (int 3) 6 [1, 2, 3] [4, 4, 4]
   \<and> parse_slice (wcs ''[3..-3]'') 3 = Inr ([3, 2, 1], [4, 4, 4], 7)"
proof -
  have n1: "\<not> 0 < (- 1 :: int)" by simp
  note t = parse_slice_range_policy
      [OF ex_1_10_a ex_1_10_b ex_1_10_c n1 ex_1_10_d ex_1_10_e ex_1_10_f ex_1_10_g n1,
        of 3 "[]" "[]" 3 "- 3" 3]
  from t have "parse_slice_loop (wcs ''[1..10]'') (int 3) 1 [] [] =
      parse_slice_loop (wcs ''[1..10]'') (int 3) 6 ([] @ range_policy (int 3) 1 10)
        ([] @ replicate (length (range_policy (int 3) 1 10)) 4)"
    by (rule conjunct1)
  then have 1: "parse_slice_loop (wcs ''[1..10]'') (int 3) 1 [] [] =
      parse_slice_loop (wcs ''[1..10]'') (int 3) 6 [1, 2, 3] [4, 4, 4]"
    by (simp add: range_policy_3_1_10)
  from t have "parse_slice (wcs ''['' @ int_str 3 @ wcs ''..'' @ int_str (- 3) @ wcs '']'') 3 =
      Inr (range_policy (int 3) 3 (- 3),
           replicate (length (range_policy (int 3) 3 (- 3))) (3 + length (int_str 3)),
           4 + length (int_str 3) + length (int_str (- 3)))"
    by (simp add: LONG_MIN_def LONG_MAX_def)
  then have 2: "parse_slice (wcs ''[3..-3]'') 3 = Inr ([3, 2, 1], [4, 4, 4], 7)"
    by (simp add: int_str_3 int_str_m3 range_policy_3_3_m3 wcs_def)
  from ex_1_10_c ex_1_10_g 1 2 show ?thesis by (intro conjI)
qed

section \<open>Properties of variable expansion\<close>

text \<open>The scans of expand_variables, in terms of the text they run over.\<close>

lemma find_varexp_rightmost:
  assumes "i < n"
    and "instr ! i = VARIABLE_EXPAND \<or> instr ! i = VARIABLE_EXPAND_SINGLE"
    and "\<forall>j. i < j \<and> j < n \<longrightarrow> instr ! j \<noteq> VARIABLE_EXPAND \<and> instr ! j \<noteq> VARIABLE_EXPAND_SINGLE"
  shows "find_varexp instr n = Some i"
  using assms
proof (induction n)
  case 0
  then show ?case by simp
next
  case (Suc n)
  show ?case
  proof (cases "i = n")
    case True
    with Suc.prems show ?thesis by simp
  next
    case False
    with Suc.prems have "i < n" by simp
    moreover from Suc.prems False have "instr ! n \<noteq> VARIABLE_EXPAND \<and> instr ! n \<noteq> VARIABLE_EXPAND_SINGLE"
      by auto
    ultimately show ?thesis using Suc by auto
  qed
qed

lemma find_varexp_None:
  assumes "\<forall>j < n. instr ! j \<noteq> VARIABLE_EXPAND \<and> instr ! j \<noteq> VARIABLE_EXPAND_SINGLE"
  shows "find_varexp instr n = None"
  using assms by (induction n) auto

lemma var_name_scan_name:
  assumes "\<forall>c \<in> set name. valid_var_name_char c \<and> c \<noteq> VARIABLE_EXPAND_EMPTY"
    and "rest = [] \<or> (\<not> valid_var_name_char (hd rest) \<and> hd rest \<noteq> VARIABLE_EXPAND_EMPTY)"
  shows "var_name_scan (pre @ name @ rest) (length pre) = length pre + length name"
  using assms
proof (induction name arbitrary: pre)
  case Nil
  then show ?case
    by (subst var_name_scan.simps) (cases rest; simp)
next
  case (Cons c name)
  from Cons.prems have "var_name_scan ((pre @ [c]) @ name @ rest) (length (pre @ [c])) =
      length (pre @ [c]) + length name"
    by (intro Cons.IH) auto
  with Cons.prems show ?case
    by (subst var_name_scan.simps) (simp add: nth_append)
qed

lemma valid_var_name_char_not_empty_marker:
  "valid_var_name_char c \<Longrightarrow> c \<noteq> VARIABLE_EXPAND_EMPTY"
  by (auto simp: valid_var_name_char_def iswalnum_def wc_def VARIABLE_EXPAND_EMPTY_def)

lemmas ev_unfold = Let_def if_True if_False if_cancel simp_thms option.case sum.case prod.case
  option.distinct

lemma find_varexp_nonzero: "find_varexp instr last_idx = Some i \<Longrightarrow> last_idx \<noteq> 0"
  by (cases last_idx) auto

lemma expand_variables_empty_name_step:
  assumes "last_idx \<le> length instr"
    and "find_varexp instr last_idx = Some i"
    and "var_name_scan instr (i + 1) = i + 1"
  shows "expand_variables E instr out last_idx errors =
    Some (False, out,
      if errors \<noteq> None then parse_util_expand_variable_error instr 0 i errors else errors)"
  by (subst expand_variables.simps)
    (simp only: ev_unfold assms find_varexp_nonzero [OF assms(2)] diff_self_eq_0)

lemma expand_variables_missing_step:
  assumes "last_idx \<le> length instr"
    and "find_varexp instr last_idx = Some i"
    and "var_name_scan instr (i + 1) = stop" and "stop - (i + 1) \<noteq> 0"
    and "take (stop - (i + 1)) (drop (i + 1) instr) = name"
    and "name \<noteq> wcs ''history''" and "env_get E name = None"
    and "variable_slice instr stop 1 = Inr (all_values, var_idx_list, nss)"
  shows "expand_variables E instr out last_idx errors =
    (if \<not> instr ! i = VARIABLE_EXPAND_SINGLE then Some (True, out, errors)
     else expand_variables E
            ((if take i instr \<noteq> [] \<and> last (take i instr) = VARIABLE_EXPAND_SINGLE
              then take i instr @ [VARIABLE_EXPAND_EMPTY] else take i instr) @ drop nss instr)
            out i errors)"
  by (subst expand_variables.simps)
    (simp only: ev_unfold assms find_varexp_nonzero [OF assms(2)])

lemma expand_variables_bad_slice_step:
  assumes "last_idx \<le> length instr"
    and "find_varexp instr last_idx = Some i"
    and "var_name_scan instr (i + 1) = stop" and "stop - (i + 1) \<noteq> 0"
    and "take (stop - (i + 1)) (drop (i + 1) instr) = name"
    and "name \<noteq> wcs ''history''" and "env_get E name = None"
    and "variable_slice instr stop 1 = Inl bad_pos"
  shows "expand_variables E instr out last_idx errors =
    Some (False, out, append_syntax_error errors (stop + bad_pos) (wcs ''Invalid index value''))"
  by (subst expand_variables.simps)
    (simp only: ev_unfold assms find_varexp_nonzero [OF assms(2)])

lemma expand_variables_normal_step:
  assumes "last_idx \<le> length instr"
    and "find_varexp instr last_idx = Some i" and "(instr ! i = VARIABLE_EXPAND_SINGLE) = False"
    and "var_name_scan instr (i + 1) = stop" and "stop - (i + 1) \<noteq> 0"
    and "take (stop - (i + 1)) (drop (i + 1) instr) = name"
    and "name \<noteq> wcs ''history''" and "name \<noteq> [VARIABLE_EXPAND_EMPTY]"
    and "env_get E name = Some vals"
    and "variable_slice instr stop (length vals) = Inr (all_values, var_idx_list, nss)"
  shows "expand_variables E instr out last_idx errors =
    expand_variables_items E instr i nss
      (if all_values then vals else select_items vals var_idx_list) out errors"
  by (subst expand_variables.simps)
    (simp only: ev_unfold assms find_varexp_nonzero [OF assms(2)] var_items_def)

text \<open>An environment with no variable and no history, for the examples.\<close>

definition no_variables :: variable_env where
  "no_variables = \<lparr>env_get = (\<lambda>name. None), main_thread_history = None\<rparr>"

lemma var_name_scan_stop:
  assumes "i = length instr \<or> (\<not> valid_var_name_char (instr ! i) \<and> instr ! i \<noteq> VARIABLE_EXPAND_EMPTY)"
  shows "var_name_scan instr i = i"
  using assms by (subst var_name_scan.simps) (auto simp: Let_def)

text \<open>
  C8. Let the last \<^verbatim>\<open>VARIABLE_EXPAND\<close> or \<^verbatim>\<open>VARIABLE_EXPAND_SINGLE\<close> marker before
  \<open>last_idx\<close> (the whole string, when \<open>last_idx\<close> is its length) be followed by
  an empty name: the marker ends the string, or the next character is neither a
  valid name character nor \<^verbatim>\<open>VARIABLE_EXPAND_EMPTY\<close>. Then expand_variables returns
  false, leaves the output list as it was, and adds exactly one error, a syntax error,
  at the end of the error list (when the caller passed one).
\<close>

theorem expand_variables_empty_name:
  assumes "last_idx \<le> length instr" and "i < last_idx"
    and "instr ! i = VARIABLE_EXPAND \<or> instr ! i = VARIABLE_EXPAND_SINGLE"
    and "\<forall>j. i < j \<and> j < last_idx \<longrightarrow>
          instr ! j \<noteq> VARIABLE_EXPAND \<and> instr ! j \<noteq> VARIABLE_EXPAND_SINGLE"
    and "i + 1 = length instr \<or>
         (\<not> valid_var_name_char (instr ! (i + 1)) \<and> instr ! (i + 1) \<noteq> VARIABLE_EXPAND_EMPTY)"
  shows "\<exists>e. error_code e = parse_error_syntax \<and>
    expand_variables E instr out last_idx errors =
      Some (False, out, case errors of None \<Rightarrow> None | Some es \<Rightarrow> Some (es @ [e]))"
proof -
  have f: "find_varexp instr last_idx = Some i"
    using assms(2,3,4) by (rule find_varexp_rightmost)
  have s: "var_name_scan instr (i + 1) = i + 1"
    using assms(5) by (rule var_name_scan_stop)
  let ?e = "\<lparr>source_start = 0 + i, source_length = 0, error_code = parse_error_syntax,
    error_text = wcs ''Expected a variable name after this $.''\<rparr>"
  have "expand_variables E instr out last_idx errors =
      Some (False, out, case errors of None \<Rightarrow> None | Some es \<Rightarrow> Some (es @ [?e]))"
    unfolding expand_variables_empty_name_step [OF assms(1) f s]
    by (cases errors) (simp_all add: parse_util_expand_variable_error_def append_syntax_error_def)
  moreover have "error_code ?e = parse_error_syntax" by simp
  ultimately show ?thesis by blast
qed

theorem expand_variables_empty_name_witness:
  "\<exists>e. error_code e = parse_error_syntax \<and>
    expand_variables no_variables (wcs ''a'' @ VARIABLE_EXPAND # wcs ''-x'') [] 4 (Some []) =
      Some (False, [], Some [e])"
proof -
  let ?s = "wcs ''a'' @ VARIABLE_EXPAND # wcs ''-x''"
  have 1: "4 \<le> length ?s" by (simp add: wcs_def)
  have 2: "(1::nat) < 4" by simp
  have 3: "?s ! 1 = VARIABLE_EXPAND \<or> ?s ! 1 = VARIABLE_EXPAND_SINGLE" by (simp add: wcs_def)
  have 4: "\<forall>j. 1 < j \<and> j < 4 \<longrightarrow> ?s ! j \<noteq> VARIABLE_EXPAND \<and> ?s ! j \<noteq> VARIABLE_EXPAND_SINGLE"
  proof (intro allI impI)
    fix j :: nat assume "1 < j \<and> j < 4"
    then have "j = 2 \<or> j = 3" by auto
    then show "?s ! j \<noteq> VARIABLE_EXPAND \<and> ?s ! j \<noteq> VARIABLE_EXPAND_SINGLE"
      by (auto simp: wcs_def wc_def marker_defs)
  qed
  have 5: "1 + 1 = length ?s \<or>
      (\<not> valid_var_name_char (?s ! (1 + 1)) \<and> ?s ! (1 + 1) \<noteq> VARIABLE_EXPAND_EMPTY)"
    by (simp add: wcs_def wc_def valid_var_name_char_def iswalnum_def marker_defs)
  from expand_variables_empty_name [OF 1 2 3 4 5, of no_variables "[]" "Some []"]
  show ?thesis by simp
qed

lemma last_take_nth: "0 < i \<Longrightarrow> i \<le> length xs \<Longrightarrow> last (take i xs) = xs ! (i - 1)"
  by (cases i) (simp_all add: take_Suc_conv_app_nth)

text \<open>
  C2, as amended. Let the last variable marker before \<open>last_idx\<close> be followed by
  a name that is not \<^verbatim>\<open>history\<close> and that the environment does not have, and let
  the slice that may follow the name parse without error. If the marker is
  \<^verbatim>\<open>VARIABLE_EXPAND\<close>, expand_variables returns true and adds nothing to the output
  or to the errors. If it is \<^verbatim>\<open>VARIABLE_EXPAND_SINGLE\<close>, the name and the slice are
  removed, a \<^verbatim>\<open>VARIABLE_EXPAND_EMPTY\<close> is put in their place only when the character
  just before the marker is itself a \<^verbatim>\<open>VARIABLE_EXPAND_SINGLE\<close>, and the expansion
  goes on with the text to the left of the marker.
\<close>

theorem expand_variables_missing_variable:
  assumes "last_idx \<le> length instr" and "i < last_idx"
    and "instr ! i = VARIABLE_EXPAND \<or> instr ! i = VARIABLE_EXPAND_SINGLE"
    and "\<forall>j. i < j \<and> j < last_idx \<longrightarrow>
          instr ! j \<noteq> VARIABLE_EXPAND \<and> instr ! j \<noteq> VARIABLE_EXPAND_SINGLE"
    and "var_name_scan instr (i + 1) = stop" and "i + 1 < stop"
    and "take (stop - (i + 1)) (drop (i + 1) instr) = name"
    and "name \<noteq> wcs ''history''" and "env_get E name = None"
    and "variable_slice instr stop 1 = Inr (all_values, var_idx_list, nss)"
  shows "(instr ! i = VARIABLE_EXPAND \<longrightarrow>
      expand_variables E instr out last_idx errors = Some (True, out, errors))
    \<and> (instr ! i = VARIABLE_EXPAND_SINGLE \<longrightarrow>
      expand_variables E instr out last_idx errors =
        expand_variables E
          (take i instr
            @ (if 0 < i \<and> instr ! (i - 1) = VARIABLE_EXPAND_SINGLE
               then [VARIABLE_EXPAND_EMPTY] else [])
            @ drop nss instr)
          out i errors)"
proof -
  have f: "find_varexp instr last_idx = Some i"
    using assms(2,3,4) by (rule find_varexp_rightmost)
  from assms(6) have ne: "stop - (i + 1) \<noteq> 0" by simp
  note step = expand_variables_missing_step
    [OF assms(1) f assms(5) ne assms(7) assms(8) assms(9) assms(10), of out errors]
  have d: "VARIABLE_EXPAND \<noteq> VARIABLE_EXPAND_SINGLE" by (simp add: marker_defs)
  from assms(1,2) have il: "i \<le> length instr" by simp
  have pre: "(if take i instr \<noteq> [] \<and> last (take i instr) = VARIABLE_EXPAND_SINGLE
        then take i instr @ [VARIABLE_EXPAND_EMPTY] else take i instr) =
      take i instr @ (if 0 < i \<and> instr ! (i - 1) = VARIABLE_EXPAND_SINGLE
        then [VARIABLE_EXPAND_EMPTY] else [])"
  proof (cases "0 < i")
    case True
    with il have "take i instr \<noteq> []" by auto
    with True il show ?thesis by (simp add: last_take_nth)
  next
    case False
    then show ?thesis by simp
  qed
  show ?thesis
    unfolding step pre using d by auto
qed

lemma var_name_scan_valid:
  assumes "i < length instr" and "valid_var_name_char (instr ! i)"
  shows "var_name_scan instr i = var_name_scan instr (i + 1)"
  using assms valid_var_name_char_not_empty_marker [of "instr ! i"]
  by (subst var_name_scan.simps) (simp add: Let_def)

lemma var_name_scan_empty_marker:
  assumes "i < length instr" and "instr ! i = VARIABLE_EXPAND_EMPTY"
  shows "var_name_scan instr i = i + 1"
  using assms by (subst var_name_scan.simps) (simp add: Let_def)

lemma find_varexp_unfold:
  "0 < n \<Longrightarrow> find_varexp instr n =
    (if instr ! (n - 1) = VARIABLE_EXPAND \<or> instr ! (n - 1) = VARIABLE_EXPAND_SINGLE
     then Some (n - 1) else find_varexp instr (n - 1))"
  by (cases n) simp_all

lemma valid_x: "valid_var_name_char (wc CHR ''x'')"
  by (simp add: valid_var_name_char_def iswalnum_def wc_def)

lemma ev_done: "expand_variables E instr out 0 errors = Some (True, append_completion out instr, errors)"
  by (subst expand_variables.simps) simp

theorem expand_variables_missing_variable_witness:
  "var_name_scan [VARIABLE_EXPAND_SINGLE, VARIABLE_EXPAND_SINGLE, wc CHR ''x''] (1 + 1) = 3
   \<and> variable_slice [VARIABLE_EXPAND_SINGLE, VARIABLE_EXPAND_SINGLE, wc CHR ''x''] 3 1
       = Inr (True, [], 3)
   \<and> expand_variables no_variables
        [VARIABLE_EXPAND_SINGLE, VARIABLE_EXPAND_SINGLE, wc CHR ''x''] [] 3 (Some []) =
      expand_variables no_variables [VARIABLE_EXPAND_SINGLE, VARIABLE_EXPAND_EMPTY] [] 1 (Some [])"
proof -
  let ?s = "[VARIABLE_EXPAND_SINGLE, VARIABLE_EXPAND_SINGLE, wc CHR ''x'']"
  have 1: "3 \<le> length ?s" by simp
  have 2: "(1::nat) < 3" by simp
  have 3: "?s ! 1 = VARIABLE_EXPAND \<or> ?s ! 1 = VARIABLE_EXPAND_SINGLE" by simp
  have 4: "\<forall>j. 1 < j \<and> j < 3 \<longrightarrow> ?s ! j \<noteq> VARIABLE_EXPAND \<and> ?s ! j \<noteq> VARIABLE_EXPAND_SINGLE"
  proof (intro allI impI)
    fix j :: nat assume "1 < j \<and> j < 3"
    then have "j = 2" by auto
    then show "?s ! j \<noteq> VARIABLE_EXPAND \<and> ?s ! j \<noteq> VARIABLE_EXPAND_SINGLE"
      by (simp add: wc_def marker_defs)
  qed
  have "var_name_scan ?s (1 + 1) = var_name_scan ?s (1 + 1 + 1)"
    by (rule var_name_scan_valid) (simp_all add: valid_x)
  also have "\<dots> = 1 + 1 + 1" by (rule var_name_scan_stop) simp
  finally have 5: "var_name_scan ?s (1 + 1) = 3" by simp
  have 6: "1 + 1 < (3::nat)" by simp
  have 7: "take (3 - (1 + 1)) (drop (1 + 1) ?s) = wcs ''x''" by (simp add: wcs_def)
  have 8: "wcs ''x'' \<noteq> wcs ''history''" by (simp add: wcs_def)
  have 9: "env_get no_variables (wcs ''x'') = None" by (simp add: no_variables_def)
  have 10: "variable_slice ?s 3 1 = Inr (True, [], 3)" by (simp add: variable_slice_def)
  from expand_variables_missing_variable [OF 1 2 3 4 5 6 7 8 9 10, of "[]" "Some []"]
  have "expand_variables no_variables ?s [] 3 (Some []) =
      expand_variables no_variables [VARIABLE_EXPAND_SINGLE, VARIABLE_EXPAND_EMPTY] [] 1 (Some [])"
    by simp
  with 5 10 show ?thesis by (intro conjI)
qed

lemma missing_single_alone:
  "expand_variables no_variables [VARIABLE_EXPAND_SINGLE, wc CHR ''x''] [] 2 (Some []) =
     Some (True, [\<lparr>completion = [], description = [], flags = {}\<rparr>], Some [])"
proof -
  let ?s = "[VARIABLE_EXPAND_SINGLE, wc CHR ''x'']"
  have 1: "2 \<le> length ?s" by simp
  have 2: "find_varexp ?s 2 = Some 0" by (simp add: find_varexp_unfold wc_def marker_defs)
  have "var_name_scan ?s (0 + 1) = var_name_scan ?s (0 + 1 + 1)"
    by (rule var_name_scan_valid) (simp_all add: valid_x wcs_def)
  also have "\<dots> = 0 + 1 + 1"
    by (rule var_name_scan_stop)
      (simp add: wcs_def wc_def valid_var_name_char_def iswalnum_def marker_defs)
  finally have 5: "var_name_scan ?s (0 + 1) = 2" by simp
  have 6: "2 - (0 + 1) \<noteq> (0::nat)" by simp
  have 7: "take (2 - (0 + 1)) (drop (0 + 1) ?s) = wcs ''x''" by (simp add: wcs_def)
  have 8: "wcs ''x'' \<noteq> wcs ''history''" by (simp add: wcs_def)
  have 9: "env_get no_variables (wcs ''x'') = None" by (simp add: no_variables_def)
  have 10: "variable_slice ?s 2 1 = Inr (True, [], 2)" by (simp add: variable_slice_def)
  show ?thesis
    unfolding expand_variables_missing_step [OF 1 2 5 6 7 8 9 10]
    by (simp add: ev_done append_completion_def)
qed

lemma missing_normal_bad_slice:
  "expand_variables no_variables (VARIABLE_EXPAND # wcs ''x[x]'') [] 5 (Some []) =
     Some (False, [], Some [\<lparr>source_start = 3, source_length = 0,
       error_code = parse_error_syntax, error_text = wcs ''Invalid index value''\<rparr>])"
proof -
  let ?s = "VARIABLE_EXPAND # wcs ''x[x]''"
  have 1: "5 \<le> length ?s" by (simp add: wcs_def)
  have 2: "find_varexp ?s 5 = Some 0" by (simp add: find_varexp_unfold wcs_def wc_def marker_defs)
  have "var_name_scan ?s (0 + 1) = var_name_scan ?s (0 + 1 + 1)"
    by (rule var_name_scan_valid) (simp_all add: valid_x wcs_def)
  also have "\<dots> = 0 + 1 + 1"
    by (rule var_name_scan_stop)
      (simp add: wcs_def wc_def valid_var_name_char_def iswalnum_def marker_defs)
  finally have 5: "var_name_scan ?s (0 + 1) = 2" by simp
  have 6: "2 - (0 + 1) \<noteq> (0::nat)" by simp
  have 7: "take (2 - (0 + 1)) (drop (0 + 1) ?s) = wcs ''x''" by (simp add: wcs_def)
  have 8: "wcs ''x'' \<noteq> wcs ''history''" by (simp add: wcs_def)
  have 9: "env_get no_variables (wcs ''x'') = None" by (simp add: no_variables_def)
  have a: "skip_while (\<lambda>c. iswspace c \<or> c = INTERNAL_SEPARATOR) (wcs ''[x]'') 1 = 1"
    and b: "cstr_at (wcs ''[x]'') 1 \<noteq> wc CHR '']''"
    by (simp_all add: eval_defs)
  have c: "fish_wcstol (wcs ''[x]'') 1 = (0, 1, EINVAL)"
    by (simp add: eval_defs fish_wcstol_def)
  have "parse_slice (wcs ''[x]'') 1 = Inl 1"
    unfolding parse_slice_def
    by (rule parse_slice_loop_bad_index [OF a b c]) (simp add: EINVAL_def)
  then have 10: "variable_slice ?s 2 1 = Inl 1"
    by (simp add: variable_slice_def wcs_def)
  show ?thesis
    unfolding expand_variables_bad_slice_step [OF 1 2 5 6 7 8 9 10]
    by (simp add: append_syntax_error_def)
qed

text \<open>
  C2 as it was stated fails twice. The text \<^verbatim>\<open>$x\<close> in double quotes, with no
  variable \<open>x\<close>, expands to the empty string: no \<^verbatim>\<open>VARIABLE_EXPAND_EMPTY\<close> is
  put in the place of the reference (with the marker put in, the result would be
  the string that holds the marker). And the normal expansion of \<^verbatim>\<open>$x[x]\<close> fails
  with a syntax error though \<open>x\<close> is missing: the slice is parsed first.
\<close>

theorem expand_variables_missing_variable_counterexample:
  "expand_variables no_variables [VARIABLE_EXPAND_SINGLE, wc CHR ''x''] [] 2 (Some []) =
     Some (True, [\<lparr>completion = [], description = [], flags = {}\<rparr>], Some [])
   \<and> expand_variables no_variables ([] @ [VARIABLE_EXPAND_EMPTY] @ []) [] 0 (Some []) =
     Some (True, [\<lparr>completion = [VARIABLE_EXPAND_EMPTY], description = [], flags = {}\<rparr>], Some [])
   \<and> expand_variables no_variables (VARIABLE_EXPAND # wcs ''x[x]'') [] 5 (Some []) =
     Some (False, [], Some [\<lparr>source_start = 3, source_length = 0,
       error_code = parse_error_syntax, error_text = wcs ''Invalid index value''\<rparr>])"
  using missing_single_alone missing_normal_bad_slice
  by (simp add: ev_done append_completion_def)

text \<open>The text \<^verbatim>\<open>$v[i]\<close> after unescaping: the marker, the name, the slice.\<close>

definition indexed_variable :: "wcstring \<Rightarrow> int \<Rightarrow> wcstring" where
  "indexed_variable v i = VARIABLE_EXPAND # v @ wcs ''['' @ int_str i @ wcs '']''"

lemma valid_var_name_char_not_marker:
  "valid_var_name_char c \<Longrightarrow> c \<noteq> VARIABLE_EXPAND \<and> c \<noteq> VARIABLE_EXPAND_SINGLE"
  by (auto simp: valid_var_name_char_def iswalnum_def wc_def marker_defs)

lemma int_str_not_marker:
  "c \<in> set (int_str i) \<Longrightarrow> c \<noteq> VARIABLE_EXPAND \<and> c \<noteq> VARIABLE_EXPAND_SINGLE"
  using dec_digits [of c]
  by (auto simp: int_str_def iswdigit_def wc_def marker_defs split: if_splits)

lemma expand_variables_items_whole:
  "expand_variables_items E instr 0 (length instr) items out errors =
    Some (True, foldl append_completion out items, errors)"
  by (induction items arbitrary: out) simp_all

lemma expand_indexed_variable:
  assumes "env_get E v = Some vals" and "v \<noteq> []" and "\<forall>c \<in> set v. valid_var_name_char c"
    and "v \<noteq> wcs ''history''" and "LONG_MIN \<le> i" and "i \<le> LONG_MAX"
  shows "expand_variables E (indexed_variable v i) out (length (indexed_variable v i)) errors =
    Some (True,
      foldl append_completion out
        (select_items vals [if - 1 < i then i else int (length vals) + i + 1]),
      errors)"
proof -
  let ?s = "indexed_variable v i"
  let ?tail = "v @ wcs ''['' @ int_str i @ wcs '']''"
  have s: "?s = VARIABLE_EXPAND # ?tail" by (simp add: indexed_variable_def)
  have tail: "\<forall>c \<in> set ?tail. c \<noteq> VARIABLE_EXPAND \<and> c \<noteq> VARIABLE_EXPAND_SINGLE"
    using assms(3) valid_var_name_char_not_marker int_str_not_marker
    by (auto simp: wcs_def wc_def marker_defs)
  have 1: "length ?s \<le> length ?s" by simp
  have f: "find_varexp ?s (length ?s) = Some 0"
  proof (rule find_varexp_rightmost)
    show "0 < length ?s" by (simp add: s)
    show "?s ! 0 = VARIABLE_EXPAND \<or> ?s ! 0 = VARIABLE_EXPAND_SINGLE" by (simp add: s)
    show "\<forall>j. 0 < j \<and> j < length ?s \<longrightarrow>
        ?s ! j \<noteq> VARIABLE_EXPAND \<and> ?s ! j \<noteq> VARIABLE_EXPAND_SINGLE"
    proof (intro allI impI)
      fix j assume j: "0 < j \<and> j < length ?s"
      then have "?s ! j = ?tail ! (j - 1)" "j - 1 < length ?tail"
        unfolding s by (cases j; simp)+
      then have "?s ! j \<in> set ?tail" by (metis nth_mem)
      with tail show "?s ! j \<noteq> VARIABLE_EXPAND \<and> ?s ! j \<noteq> VARIABLE_EXPAND_SINGLE" by blast
    qed
  qed
  have ns: "(?s ! 0 = VARIABLE_EXPAND_SINGLE) = False" by (simp add: s marker_defs)
  have split: "?s = [VARIABLE_EXPAND] @ v @ (wcs ''['' @ int_str i @ wcs '']'')"
    by (simp add: s)
  have "var_name_scan ([VARIABLE_EXPAND] @ v @ (wcs ''['' @ int_str i @ wcs '']''))
      (length [VARIABLE_EXPAND]) = length [VARIABLE_EXPAND] + length v"
    using assms(3) valid_var_name_char_not_empty_marker
    by (intro var_name_scan_name)
      (auto simp: wcs_def wc_def valid_var_name_char_def iswalnum_def marker_defs)
  then have scan: "var_name_scan ?s (0 + 1) = 1 + length v"
    unfolding split by simp
  from assms(2) have ne: "1 + length v - (0 + 1) \<noteq> 0" by simp
  have name: "take (1 + length v - (0 + 1)) (drop (0 + 1) ?s) = v" by (simp add: s)
  from assms(2,3) have nem: "v \<noteq> [VARIABLE_EXPAND_EMPTY]"
    using valid_var_name_char_not_empty_marker by (cases v) auto
  have d: "drop (1 + length v) ?s = wcs ''['' @ int_str i @ wcs '']'' @ []"
    by (simp add: s)
  have at: "1 + length v < length ?s \<and> ?s ! (1 + length v) = wc CHR ''[''"
    by (simp add: s nth_append wcs_def)
  have sl: "variable_slice ?s (1 + length v) (length vals) =
      Inr (False, [if - 1 < i then i else int (length vals) + i + 1], length ?s)"
    unfolding variable_slice_def d parse_slice_single_index [OF assms(5,6)]
    using at by (simp add: s wcs_def)
  show ?thesis
    unfolding expand_variables_normal_step [OF 1 f ns scan ne name assms(4) nem assms(1) sl]
    by (simp add: expand_variables_items_whole)
qed

text \<open>
  C4. Let \<open>v\<close> be a variable of the environment with \<open>m\<close> values. For
  \<open>1 \<le> k \<le> m\<close> the expansion of \<^verbatim>\<open>$v[-k]\<close> succeeds and adds exactly one
  completion, the element of index \<open>m - k + 1\<close> (counted from 1), that is the
  \<open>k\<close>-th from the end. And for every single index \<open>i\<close> whose resolved value
  (\<open>m + i + 1\<close> for a negative \<open>i\<close>) is outside \<open>1..m\<close>, the expansion of
  \<^verbatim>\<open>$v[i]\<close> succeeds, adds no completion and no error.
\<close>

theorem expand_variables_single_index:
  assumes "env_get E v = Some vals" and "v \<noteq> []" and "\<forall>c \<in> set v. valid_var_name_char c"
    and "v \<noteq> wcs ''history''" and "int (length vals) \<le> LONG_MAX"
  shows "(1 \<le> k \<and> k \<le> length vals \<longrightarrow>
      expand_variables E (indexed_variable v (- int k)) out
          (length (indexed_variable v (- int k))) errors =
        Some (True, append_completion out (vals ! (length vals - k)), errors))
    \<and> (LONG_MIN \<le> i \<and> i \<le> LONG_MAX
        \<and> \<not> (1 \<le> slice_index (int (length vals)) i
              \<and> slice_index (int (length vals)) i \<le> int (length vals)) \<longrightarrow>
      expand_variables E (indexed_variable v i) out (length (indexed_variable v i)) errors =
        Some (True, out, errors))"
proof (intro conjI impI)
  assume k: "1 \<le> k \<and> k \<le> length vals"
  with assms(5) have r: "LONG_MIN \<le> - int k" "- int k \<le> LONG_MAX"
    by (auto simp: LONG_MIN_def LONG_MAX_def)
  from k have "nat (int (length vals) - int k) = length vals - k" by auto
  with k show "expand_variables E (indexed_variable v (- int k)) out
      (length (indexed_variable v (- int k))) errors =
    Some (True, append_completion out (vals ! (length vals - k)), errors)"
    unfolding expand_indexed_variable [OF assms(1-4) r] by auto
next
  assume i: "LONG_MIN \<le> i \<and> i \<le> LONG_MAX
    \<and> \<not> (1 \<le> slice_index (int (length vals)) i
          \<and> slice_index (int (length vals)) i \<le> int (length vals))"
  then have r: "LONG_MIN \<le> i" "i \<le> LONG_MAX" by auto
  from i show "expand_variables E (indexed_variable v i) out (length (indexed_variable v i)) errors =
      Some (True, out, errors)"
    unfolding expand_indexed_variable [OF assms(1-4) r]
    by (auto simp: slice_index_def)
qed

text \<open>The variable of the examples of the specification: \<^verbatim>\<open>foo\<close> is \<^verbatim>\<open>x y z\<close>.\<close>

definition foo_env :: variable_env where
  "foo_env =
     \<lparr>env_get = (\<lambda>name. if name = wcs ''foo'' then Some [wcs ''x'', wcs ''y'', wcs ''z''] else None),
      main_thread_history = None\<rparr>"

theorem expand_variables_single_index_witness:
  "expand_variables foo_env (indexed_variable (wcs ''foo'') (- int 1)) []
       (length (indexed_variable (wcs ''foo'') (- int 1))) (Some []) =
     Some (True, [\<lparr>completion = wcs ''z'', description = [], flags = {}\<rparr>], Some [])
   \<and> expand_variables foo_env (indexed_variable (wcs ''foo'') 5) []
       (length (indexed_variable (wcs ''foo'') 5)) (Some []) =
     Some (True, [], Some [])"
proof -
  have 1: "env_get foo_env (wcs ''foo'') = Some [wcs ''x'', wcs ''y'', wcs ''z'']"
    by (simp add: foo_env_def)
  have 2: "wcs ''foo'' \<noteq> []" by (simp add: wcs_def)
  have 3: "\<forall>c \<in> set (wcs ''foo''). valid_var_name_char c"
    by (simp add: wcs_def wc_def valid_var_name_char_def iswalnum_def)
  have 4: "wcs ''foo'' \<noteq> wcs ''history''" by (simp add: wcs_def)
  have 5: "int (length [wcs ''x'', wcs ''y'', wcs ''z'']) \<le> LONG_MAX"
    by (simp add: LONG_MAX_def)
  from expand_variables_single_index [OF 1 2 3 4 5, of 1 "[]" "Some []" 5]
  show ?thesis
    by (simp add: slice_index_def LONG_MIN_def LONG_MAX_def append_completion_def)
qed

section \<open>Properties of the login shim\<close>

text \<open>
  The quoting in the words of the specification: the argument between single
  quotes, with a backslash before every backslash and every single quote; and the
  arguments that are added, \<^verbatim>\<open>argv[i]\<close> for \<open>1 \<le> i < argc\<close> in order, the
  null ones left out.
\<close>

definition single_quoted :: "string \<Rightarrow> string" where
  "single_quoted a =
     [single_quote]
     @ concat (map (\<lambda>c. if c = backslash \<or> c = single_quote then [backslash, c] else [c]) a)
     @ [single_quote]"

definition extra_args :: "int \<Rightarrow> string option list \<Rightarrow> string list" where
  "extra_args argc argv = List.map_filter (\<lambda>a. a) (drop 1 (take (nat argc) argv))"

lemma escape_single_quoted_loop_eq:
  "escape_single_quoted_loop str i result =
    result @ concat (map (\<lambda>c. if c = backslash \<or> c = single_quote then [backslash, c] else [c])
      (drop i str))"
proof (induction str i result rule: escape_single_quoted_loop.induct)
  case (1 str i result)
  show ?case
  proof (cases "i < length str")
    case True
    then have d: "drop i str = str ! i # drop (i + 1) str"
      by (simp add: Cons_nth_drop_Suc)
    from True 1 show ?thesis
      by (subst escape_single_quoted_loop.simps) (simp add: Let_def d)
  next
    case False
    then show ?thesis by (subst escape_single_quoted_loop.simps) simp
  qed
qed

lemma escape_single_quoted_eq: "escape_single_quoted_hack_hack_hack_hack a = single_quoted a"
  by (simp add: escape_single_quoted_hack_hack_hack_hack_def single_quoted_def
      escape_single_quoted_loop_eq)

lemma xdm_args_loop_eq:
  assumes "0 \<le> i" and "argc \<le> int (length argv)"
  shows "xdm_args_loop argv argc i new_cmd =
    Some (new_cmd @ concat (map (\<lambda>a. '' '' @ single_quoted a)
      (List.map_filter (\<lambda>a. a) (drop (nat i) (take (nat argc) argv)))))"
  using assms
proof (induction argv argc i new_cmd rule: xdm_args_loop.induct)
  case (1 argv argc i new_cmd)
  show ?case
  proof (cases "i < argc")
    case True
    with 1 have lt: "nat i < length argv" "nat i < length (take (nat argc) argv)" by auto
    then have d: "drop (nat i) (take (nat argc) argv) =
        argv ! nat i # drop (nat (i + 1)) (take (nat argc) argv)"
      using 1(3) by (simp add: Cons_nth_drop_Suc [symmetric] nat_add_distrib)
    show ?thesis
    proof (cases "argv ! nat i")
      case None
      with True lt 1 show ?thesis
        by (subst xdm_args_loop.simps) (simp add: d List.map_filter_simps)
    next
      case (Some arg)
      with True lt 1 show ?thesis
        by (subst xdm_args_loop.simps)
          (simp add: d List.map_filter_simps escape_single_quoted_eq)
    qed
  next
    case False
    then have "drop (nat i) (take (nat argc) argv) = []" by simp
    with False show ?thesis
      by (subst xdm_args_loop.simps) (simp add: List.map_filter_simps)
  qed
qed

text \<open>
  C9. fish_xdm_login_hack returns true exactly when the command list has one
  element and that element is \<^verbatim>\<open>exec "${@}"\<close> or \<^verbatim>\<open>exec "$@"\<close>. Then (when
  \<^verbatim>\<open>argv\<close> has the \<open>argc\<close> entries the loop reads) the element is replaced by
  \<^verbatim>\<open>exec\<close> followed, for each non-null \<^verbatim>\<open>argv[i]\<close> with \<open>1 \<le> i < argc\<close>
  in order, by a space and the argument quoted. In every other case it returns
  false and the list is as it was.
\<close>

theorem fish_xdm_login_hack:
  "if cmds = Some [xdm_exec_braces] \<or> cmds = Some [xdm_exec_plain]
   then argc \<le> int (length argv) \<longrightarrow>
     fish_xdm_login_hack_hack_hack_hack cmds argc argv =
       Some (True, Some [''exec'' @ concat (map (\<lambda>a. '' '' @ single_quoted a)
                                        (extra_args argc argv))])
   else fish_xdm_login_hack_hack_hack_hack cmds argc argv = Some (False, cmds)"
proof (cases cmds)
  case None
  then show ?thesis by (simp add: fish_xdm_login_hack_hack_hack_hack_def)
next
  case (Some cs)
  show ?thesis
  proof (cases "length cs = 1")
    case True
    then obtain c where cs: "cs = [c]" by (cases cs) auto
    show ?thesis
      unfolding fish_xdm_login_hack_hack_hack_hack_def Some cs
      using xdm_args_loop_eq [of 1 argc argv "''exec''"]
      by (simp add: extra_args_def)
  next
    case False
    then have "cs \<noteq> [xdm_exec_braces]" "cs \<noteq> [xdm_exec_plain]" by auto
    with False show ?thesis
      by (simp add: fish_xdm_login_hack_hack_hack_hack_def Some)
  qed
qed

theorem fish_xdm_login_hack_witness:
  "fish_xdm_login_hack_hack_hack_hack (Some [xdm_exec_plain]) 4
      [Some ''fish'', Some (''it'' @ [single_quote] @ ''s''), None, Some ''x'', None] =
     Some (True, Some [''exec '' @ [single_quote] @ ''it'' @ [backslash, single_quote] @ ''s''
                        @ [single_quote] @ '' '' @ [single_quote] @ ''x'' @ [single_quote]])
   \<and> fish_xdm_login_hack_hack_hack_hack (Some [''exec fish'']) 4 [Some ''fish'', None] =
     Some (False, Some [''exec fish''])"
proof -
  have ne: "''exec fish'' \<noteq> xdm_exec_braces" "''exec fish'' \<noteq> xdm_exec_plain"
    by (simp_all add: xdm_exec_braces_def xdm_exec_plain_def)
  show ?thesis
    using fish_xdm_login_hack [of "Some [xdm_exec_plain]" 4
          "[Some ''fish'', Some (''it'' @ [single_quote] @ ''s''), None, Some ''x'', None]"]
      fish_xdm_login_hack [of "Some [''exec fish'']" 4 "[Some ''fish'', None]"] ne
    by (simp add: extra_args_def single_quoted_def List.map_filter_simps
        single_quote_def backslash_def)
qed

section \<open>Properties of the pipeline driver\<close>

text \<open>The characters that make a string unclean wherever they stand.\<close>


definition unclean_characters :: "wchar set" where
  "unclean_characters =
     {wc CHR ''$'', wc CHR ''*'', wc CHR ''?'', wc backslash, wc double_quote, wc single_quote,
      wc CHR ''('', wc CHR '')'', wc CHR ''{'', wc CHR ''}''}"

lemma set_UNCLEAN: "set UNCLEAN = unclean_characters"
  by (auto simp: UNCLEAN_def unclean_characters_def wcs_def)

lemma expand_is_clean_iff:
  "expand_is_clean s \<longleftrightarrow>
    s = [] \<or> (s ! 0 \<noteq> 0 \<and> s ! 0 \<noteq> wc CHR ''~'' \<and> s ! 0 \<noteq> wc CHR ''%''
              \<and> set s \<inter> unclean_characters = {})"
  by (auto simp: expand_is_clean_def wcschr_found_def UNCLEAN_FIRST_def set_UNCLEAN wcs_def)

text \<open>
  C3, as amended. Let \<open>s\<close> be empty, or have a first character that is not NUL, not
  \<^verbatim>\<open>~\<close> and not \<^verbatim>\<open>%\<close>, and none of the characters \<^verbatim>\<open>$ * ? \ " ' ( ) { }\<close>.
  Then expand_string without the completions flag returns \<^verbatim>\<open>EXPAND_OK\<close>, adds at
  the end of the output list exactly one completion, \<open>s\<close> itself, leaves the errors as
  they were and invokes no stage, whatever the stages are.
\<close>

theorem expand_string_clean:
  assumes "EXPAND_FOR_COMPLETIONS \<notin> flgs"
    and "s = [] \<or> (s ! 0 \<noteq> 0 \<and> s ! 0 \<noteq> wc CHR ''~'' \<and> s ! 0 \<noteq> wc CHR ''%''
                   \<and> set s \<inter> unclean_characters = {})"
  shows "expand_string D stages s out flgs errors =
    (EXPAND_OK, out @ [\<lparr>completion = s, description = [], flags = {}\<rparr>], errors, [])"
  using assms by (simp add: expand_string_def expand_is_clean_iff append_completion_def)

text \<open>
  What every run of the driver keeps: each invocation updates the running result
  by the rule of lines 1481-1484, and no invocation but the last one made has
  returned \<^verbatim>\<open>EXPAND_ERROR\<close>.
\<close>


fun aggregated :: "expand_error_t \<Rightarrow> stage_call list \<Rightarrow> bool" where
  "aggregated t [] = True"
| "aggregated t (c # cs) =
     (call_total c =
        (if call_result c = EXPAND_WILDCARD_NO_MATCH \<and> t = EXPAND_WILDCARD_MATCH
         then EXPAND_WILDCARD_MATCH else call_result c)
      \<and> aggregated (call_total c) cs)"

fun last_total :: "expand_error_t \<Rightarrow> stage_call list \<Rightarrow> expand_error_t" where
  "last_total t [] = t"
| "last_total t (c # cs) = last_total (call_total c) cs"

lemma last_total_snoc: "last_total t (cs @ [c]) = call_total c"
  by (induction cs arbitrary: t) simp_all

lemma aggregated_snoc:
  "aggregated t (cs @ [c]) \<longleftrightarrow>
     aggregated t cs \<and>
     call_total c =
       (if call_result c = EXPAND_WILDCARD_NO_MATCH \<and> last_total t cs = EXPAND_WILDCARD_MATCH
        then EXPAND_WILDCARD_MATCH else call_result c)"
  by (induction cs arbitrary: t) auto

definition no_error_before_last :: "expand_error_t \<Rightarrow> stage_call list \<Rightarrow> bool" where
  "no_error_before_last total_result calls \<longleftrightarrow>
     (if total_result = EXPAND_ERROR
      then calls \<noteq> [] \<and> call_result (last calls) = EXPAND_ERROR
           \<and> (\<forall>d \<in> set (butlast calls). call_result d \<noteq> EXPAND_ERROR)
      else \<forall>d \<in> set calls. call_result d \<noteq> EXPAND_ERROR)"

definition driver_inv :: "expand_error_t \<Rightarrow> driver_state \<Rightarrow> bool" where
  "driver_inv t0 st \<longleftrightarrow>
     (case st of (total_result, out, errors, calls) \<Rightarrow>
        aggregated t0 calls \<and> last_total t0 calls = total_result \<and> no_error_before_last total_result calls)"

lemma stage_loop_inv:
  assumes "driver_inv t0 st"
  shows "driver_inv t0 (stage_loop stage stage_idx flgs cs st)"
  using assms
proof (induction cs arbitrary: st)
  case Nil
  then show ?case by simp
next
  case (Cons c cs)
  obtain total_result out errors calls where st: "st = (total_result, out, errors, calls)"
    by (cases st) auto
  show ?case
  proof (cases "total_result = EXPAND_ERROR")
    case True
    with Cons.prems show ?thesis by (simp add: st)
  next
    case False
    obtain this out1 errors1 where s: "stage (completion c) out flgs errors = (this, out1, errors1)"
      by (cases "stage (completion c) out flgs errors") auto
    define total1 where "total1 =
      (if \<not> (this = EXPAND_WILDCARD_NO_MATCH \<and> total_result = EXPAND_WILDCARD_MATCH)
       then this else total_result)"
    define call where "call = \<lparr>call_stage = stage_idx, call_input = completion c,
      call_result = this, call_total = total1\<rparr>"
    have step: "stage_loop stage stage_idx flgs (c # cs) st =
        stage_loop stage stage_idx flgs cs (total1, out1, errors1, calls @ [call])"
      using False by (simp add: st s total1_def call_def)
    from Cons.prems have a: "aggregated t0 calls" and l: "last_total t0 calls = total_result"
      and n: "\<forall>d \<in> set calls. call_result d \<noteq> EXPAND_ERROR"
      using False by (simp_all add: driver_inv_def st no_error_before_last_def)
    have cr: "call_result call = this" and ct: "call_total call = total1"
      by (simp_all add: call_def)
    have a1: "aggregated t0 (calls @ [call])"
      using a l by (simp add: aggregated_snoc cr ct total1_def)
    have l1: "last_total t0 (calls @ [call]) = total1"
      by (simp add: last_total_snoc ct)
    have n1: "no_error_before_last total1 (calls @ [call])"
    proof (cases "this = EXPAND_ERROR")
      case True
      then have "total1 = EXPAND_ERROR" by (simp add: total1_def)
      with True n show ?thesis by (simp add: no_error_before_last_def cr)
    next
      case ne: False
      with False have "total1 \<noteq> EXPAND_ERROR" by (simp add: total1_def)
      with ne n show ?thesis by (simp add: no_error_before_last_def cr)
    qed
    from a1 l1 n1 have "driver_inv t0 (total1, out1, errors1, calls @ [call])"
      by (simp add: driver_inv_def)
    then show ?thesis unfolding step by (rule Cons.IH)
  qed
qed

lemma stages_loop_inv:
  assumes "driver_inv t0 st"
  shows "driver_inv t0 (stages_loop stages stage_idx flgs st)"
  using assms
proof (induction stages arbitrary: st stage_idx)
  case Nil
  then show ?case by simp
next
  case (Cons stage rest)
  obtain total_result completions errors calls where st: "st = (total_result, completions, errors, calls)"
    by (cases st) auto
  show ?case
  proof (cases "total_result = EXPAND_ERROR")
    case True
    with Cons.prems show ?thesis by (simp add: st)
  next
    case False
    from Cons.prems have "driver_inv t0 (total_result, [], errors, calls)"
      by (simp add: driver_inv_def st)
    then have "driver_inv t0 (stage_loop stage stage_idx flgs completions (total_result, [], errors, calls))"
      by (rule stage_loop_inv)
    then show ?thesis using False by (simp add: st Cons.IH)
  qed
qed

lemma expand_string_inv:
  assumes "expand_string D stages input out flgs errors = (total_result, out1, errors1, calls)"
  shows "aggregated EXPAND_OK calls \<and> last_total EXPAND_OK calls = total_result
    \<and> no_error_before_last total_result calls \<and> (total_result = EXPAND_ERROR \<longrightarrow> out1 = out)"
proof (cases "EXPAND_FOR_COMPLETIONS \<notin> flgs \<and> expand_is_clean input")
  case True
  with assms show ?thesis by (auto simp: expand_string_def no_error_before_last_def)
next
  case False
  obtain t cs es cl where r:
    "stages_loop stages 0 flgs (EXPAND_OK, append_completion [] input, errors, []) = (t, cs, es, cl)"
    by (cases "stages_loop stages 0 flgs (EXPAND_OK, append_completion [] input, errors, [])") auto
  have "driver_inv EXPAND_OK (EXPAND_OK, append_completion [] input, errors, [])"
    by (simp add: driver_inv_def no_error_before_last_def)
  then have "driver_inv EXPAND_OK (t, cs, es, cl)"
    unfolding r [symmetric] by (rule stages_loop_inv)
  moreover from assms False r have "total_result = t" "calls = cl" "t = EXPAND_ERROR \<longrightarrow> out1 = out"
    by (auto simp: expand_string_def split: if_splits)
  ultimately show ?thesis by (simp add: driver_inv_def)
qed

text \<open>
  The running result after the first \<open>k\<close> stage invocations of a run: \<^verbatim>\<open>EXPAND_OK\<close>
  at the start, and then \<^verbatim>\<open>total_result\<close> as the \<open>k\<close>-th invocation left it.
\<close>


definition running_result :: "stage_call list \<Rightarrow> nat \<Rightarrow> expand_error_t" where
  "running_result calls k = (if k = 0 then EXPAND_OK else call_total (calls ! (k - 1)))"

lemma aggregated_nth:
  assumes "aggregated t calls" and "k < length calls"
  shows "call_total (calls ! k) =
    (if call_result (calls ! k) = EXPAND_WILDCARD_NO_MATCH
        \<and> (if k = 0 then t else call_total (calls ! (k - 1))) = EXPAND_WILDCARD_MATCH
     then EXPAND_WILDCARD_MATCH else call_result (calls ! k))"
  using assms
proof (induction calls arbitrary: t k)
  case Nil
  then show ?case by simp
next
  case (Cons c cs)
  show ?case
  proof (cases k)
    case 0
    with Cons.prems show ?thesis by simp
  next
    case (Suc j)
    with Cons.prems have "aggregated (call_total c) cs" "j < length cs" by auto
    from Cons.IH [OF this] Suc show ?thesis
      by (cases j) auto
  qed
qed

lemma last_total_last: "last_total t calls = (if calls = [] then t else call_total (last calls))"
  by (induction calls arbitrary: t) auto

text \<open>
  The rule of the specification for the running result: a stage that returns
  \<^verbatim>\<open>EXPAND_WILDCARD_NO_MATCH\<close> does not downgrade \<^verbatim>\<open>EXPAND_WILDCARD_MATCH\<close>;
  otherwise the most recent result wins.
\<close>

definition status_aggregation :: "expand_error_t \<Rightarrow> expand_error_t \<Rightarrow> expand_error_t" where
  "status_aggregation running this_result =
     (if this_result = EXPAND_WILDCARD_NO_MATCH \<and> running = EXPAND_WILDCARD_MATCH
      then EXPAND_WILDCARD_MATCH else this_result)"

text \<open>
  The results a stage gives on a list of inputs taken in order, each invocation
  getting the output list and the errors as the one before it left them; and the part
  of a list of results up to its first \<^verbatim>\<open>EXPAND_ERROR\<close>, that one included.
\<close>

fun stage_results ::
  "expand_stage_t \<Rightarrow> expand_flags_t \<Rightarrow> wcstring list \<Rightarrow> completion_t list \<Rightarrow> parse_error_list
    \<Rightarrow> expand_error_t list" where
  "stage_results stage flgs [] output_storage errors = []"
| "stage_results stage flgs (next_input # rest) output_storage errors =
     (case stage next_input output_storage flgs errors of
        (this_result, output_storage1, errors1) \<Rightarrow>
          this_result # stage_results stage flgs rest output_storage1 errors1)"

fun until_error :: "expand_error_t list \<Rightarrow> expand_error_t list" where
  "until_error [] = []"
| "until_error (r # rs) = (if r = EXPAND_ERROR then [r] else r # until_error rs)"

text \<open>
  The invocations of one pass of a stage over its inputs, given the results: each
  with the running result as the rule leaves it.
\<close>

fun pass_calls :: "nat \<Rightarrow> expand_error_t \<Rightarrow> wcstring list \<Rightarrow> expand_error_t list \<Rightarrow> stage_call list" where
  "pass_calls stage_idx running (next_input # inputs) (this_result # results) =
     \<lparr>call_stage = stage_idx, call_input = next_input, call_result = this_result,
      call_total = status_aggregation running this_result\<rparr>
     # pass_calls stage_idx (status_aggregation running this_result) inputs results"
| "pass_calls stage_idx running inputs results = []"

lemma stage_loop_error:
  "stage_loop stage stage_idx flgs cs (EXPAND_ERROR, output_storage, errors, calls) =
     (EXPAND_ERROR, output_storage, errors, calls)"
  by (cases cs) simp_all

lemma status_aggregation_error:
  "status_aggregation running this_result = EXPAND_ERROR \<longleftrightarrow> this_result = EXPAND_ERROR"
  by (auto simp: status_aggregation_def)

text \<open>
  One pass of the driver over the completions of a stage: the stage is invoked on each
  completion in order until one invocation returns an error, and the running result is
  the rule folded over the results of these invocations.
\<close>

lemma stage_loop_pass:
  assumes "running \<noteq> EXPAND_ERROR"
  shows "\<exists>output_storage1 errors1.
    stage_loop stage stage_idx flgs cs (running, output_storage, errors, calls) =
      (foldl status_aggregation running
         (until_error (stage_results stage flgs (map completion cs) output_storage errors)),
       output_storage1, errors1,
       calls @ pass_calls stage_idx running (map completion cs)
         (until_error (stage_results stage flgs (map completion cs) output_storage errors)))"
  using assms
proof (induction cs arbitrary: running output_storage errors calls)
  case Nil
  then show ?case by simp
next
  case (Cons c cs)
  obtain this out1 errors1 where s:
    "stage (completion c) output_storage flgs errors = (this, out1, errors1)"
    by (cases "stage (completion c) output_storage flgs errors") auto
  define call where "call = \<lparr>call_stage = stage_idx, call_input = completion c,
    call_result = this, call_total = status_aggregation running this\<rparr>"
  have step: "stage_loop stage stage_idx flgs (c # cs) (running, output_storage, errors, calls) =
      stage_loop stage stage_idx flgs cs
        (status_aggregation running this, out1, errors1, calls @ [call])"
    using Cons.prems by (simp add: s status_aggregation_def call_def)
  have rs: "stage_results stage flgs (map completion (c # cs)) output_storage errors =
      this # stage_results stage flgs (map completion cs) out1 errors1"
    by (simp add: s)
  show ?case
  proof (cases "this = EXPAND_ERROR")
    case True
    then have "status_aggregation running this = EXPAND_ERROR"
      by (simp add: status_aggregation_error)
    then show ?thesis
      unfolding step rs using True by (simp add: stage_loop_error call_def)
  next
    case False
    then have ne: "status_aggregation running this \<noteq> EXPAND_ERROR"
      by (simp add: status_aggregation_error)
    from Cons.IH [OF ne, of out1 errors1 "calls @ [call]"]
    show ?thesis
      unfolding step rs using False by (simp add: call_def)
  qed
qed


text \<open>
  Every invocation of a list is one of a stage of the pipeline, with the result that
  the stage gives on the input of the invocation.
\<close>

definition invocations_of :: "expand_stage_t list \<Rightarrow> expand_flags_t \<Rightarrow> stage_call list \<Rightarrow> bool" where
  "invocations_of stages flgs calls \<longleftrightarrow>
     (\<forall>c \<in> set calls. call_stage c < length stages
        \<and> (\<exists>output_storage errors.
              call_result c = fst ((stages ! call_stage c) (call_input c) output_storage flgs errors)))"

lemma invocations_of_snoc:
  assumes "invocations_of stages flgs calls" and "stage_idx < length stages"
    and "(stages ! stage_idx) next_input output_storage flgs errors = (this_result, rest)"
  shows "invocations_of stages flgs
    (calls @ [\<lparr>call_stage = stage_idx, call_input = next_input, call_result = this_result,
               call_total = t\<rparr>])"
proof -
  have "this_result = fst ((stages ! stage_idx) next_input output_storage flgs errors)"
    by (simp add: assms(3))
  then have "\<exists>output_storage errors.
      this_result = fst ((stages ! stage_idx) next_input output_storage flgs errors)"
    by blast
  with assms(1,2) show ?thesis
    by (simp add: invocations_of_def)
qed

lemma stage_loop_invocations:
  assumes "stage_idx < length stages" and "stages ! stage_idx = stage"
    and "invocations_of stages flgs calls"
  shows "invocations_of stages flgs
    (snd (snd (snd (stage_loop stage stage_idx flgs cs (t, output_storage, errors, calls)))))"
  using assms(3)
proof (induction cs arbitrary: t output_storage errors calls)
  case Nil
  then show ?case by simp
next
  case (Cons c cs)
  show ?case
  proof (cases "t = EXPAND_ERROR")
    case True
    with Cons.prems show ?thesis by simp
  next
    case False
    obtain this out1 errors1 where s:
      "stage (completion c) output_storage flgs errors = (this, out1, errors1)"
      by (cases "stage (completion c) output_storage flgs errors") auto
    define call where "call = \<lparr>call_stage = stage_idx, call_input = completion c,
      call_result = this, call_total = status_aggregation t this\<rparr>"
    have step: "stage_loop stage stage_idx flgs (c # cs) (t, output_storage, errors, calls) =
        stage_loop stage stage_idx flgs cs
          (status_aggregation t this, out1, errors1, calls @ [call])"
      using False by (simp add: s status_aggregation_def call_def)
    from s assms(2) have "(stages ! stage_idx) (completion c) output_storage flgs errors =
        (this, out1, errors1)"
      by simp
    from invocations_of_snoc [OF Cons.prems assms(1) this]
    have "invocations_of stages flgs (calls @ [call])"
      by (simp add: call_def)
    then show ?thesis
      unfolding step by (rule Cons.IH)
  qed
qed

lemma stages_loop_invocations:
  assumes "rest = drop stage_idx stages" and "invocations_of stages flgs calls"
  shows "invocations_of stages flgs
    (snd (snd (snd (stages_loop rest stage_idx flgs (t, completions, errors, calls)))))"
  using assms
proof (induction rest arbitrary: stage_idx t completions errors calls)
  case Nil
  then show ?case by simp
next
  case (Cons stage rest)
  show ?case
  proof (cases "t = EXPAND_ERROR")
    case True
    with Cons.prems(2) show ?thesis by simp
  next
    case False
    from Cons.prems(1) have lt: "stage_idx < length stages"
      by (cases "stage_idx < length stages") auto
    have "stage # rest = stages ! stage_idx # drop (Suc stage_idx) stages"
      using Cons.prems(1) Cons_nth_drop_Suc [OF lt] by (rule trans [OF _ sym])
    then have nth: "stages ! stage_idx = stage" and r: "rest = drop (stage_idx + 1) stages"
      by simp_all
    obtain t1 o1 e1 c1 where sl:
      "stage_loop stage stage_idx flgs completions (t, [], errors, calls) = (t1, o1, e1, c1)"
      by (cases "stage_loop stage stage_idx flgs completions (t, [], errors, calls)") auto
    from stage_loop_invocations [OF lt nth Cons.prems(2), of completions t "[]" errors]
    have "invocations_of stages flgs c1"
      by (simp add: sl)
    from Cons.IH [OF r this, of t1 o1 e1] show ?thesis
      using False by (simp add: sl)
  qed
qed

lemma stage_loop_appends:
  "\<exists>new. snd (snd (snd (stage_loop stage stage_idx flgs cs (t, output_storage, errors, calls))))
     = calls @ new"
proof (induction cs arbitrary: t output_storage errors calls)
  case Nil
  then show ?case by simp
next
  case (Cons c cs)
  show ?case
  proof (cases "t = EXPAND_ERROR")
    case True
    then show ?thesis by simp
  next
    case False
    obtain this out1 errors1 where s:
      "stage (completion c) output_storage flgs errors = (this, out1, errors1)"
      by (cases "stage (completion c) output_storage flgs errors") auto
    define call where "call = \<lparr>call_stage = stage_idx, call_input = completion c,
      call_result = this, call_total = status_aggregation t this\<rparr>"
    have step: "stage_loop stage stage_idx flgs (c # cs) (t, output_storage, errors, calls) =
        stage_loop stage stage_idx flgs cs
          (status_aggregation t this, out1, errors1, calls @ [call])"
      using False by (simp add: s status_aggregation_def call_def)
    from Cons.IH [of "status_aggregation t this" out1 errors1 "calls @ [call]"]
    obtain new where "snd (snd (snd (stage_loop stage stage_idx flgs cs
        (status_aggregation t this, out1, errors1, calls @ [call])))) = calls @ ([call] @ new)"
      by auto
    then show ?thesis unfolding step by blast
  qed
qed

lemma stages_loop_appends:
  "\<exists>new. snd (snd (snd (stages_loop rest stage_idx flgs (t, completions, errors, calls))))
     = calls @ new"
proof (induction rest arbitrary: stage_idx t completions errors calls)
  case Nil
  then show ?case by simp
next
  case (Cons stage rest)
  show ?case
  proof (cases "t = EXPAND_ERROR")
    case True
    then show ?thesis by simp
  next
    case False
    obtain t1 o1 e1 c1 where sl:
      "stage_loop stage stage_idx flgs completions (t, [], errors, calls) = (t1, o1, e1, c1)"
      by (cases "stage_loop stage stage_idx flgs completions (t, [], errors, calls)") auto
    from stage_loop_appends [of stage stage_idx flgs completions t "[]" errors calls]
    obtain new1 where n1: "c1 = calls @ new1" by (auto simp: sl)
    from Cons.IH [of "stage_idx + 1" t1 o1 e1 c1]
    obtain new2 where "snd (snd (snd (stages_loop rest (stage_idx + 1) flgs (t1, o1, e1, c1))))
        = calls @ (new1 @ new2)"
      by (auto simp: n1)
    then show ?thesis using False by (simp add: sl)
  qed
qed

lemma expand_string_calls:
  assumes "expand_string D stages input out flgs errors = (total_result, out1, errors1, calls)"
  shows "calls = (if EXPAND_FOR_COMPLETIONS \<notin> flgs \<and> expand_is_clean input then []
      else snd (snd (snd (stages_loop stages 0 flgs
             (EXPAND_OK, append_completion [] input, errors, [])))))"
  using assms by (auto simp: expand_string_def split: if_splits prod.splits)

lemma expand_string_first_call:
  assumes "expand_string D (stage # rest) input out flgs errors = (total_result, out1, errors1, calls)"
    and "\<not> (EXPAND_FOR_COMPLETIONS \<notin> flgs \<and> expand_is_clean input)"
  shows "calls \<noteq> [] \<and> hd calls =
    \<lparr>call_stage = 0, call_input = input, call_result = fst (stage input [] flgs errors),
     call_total = fst (stage input [] flgs errors)\<rparr>"
proof -
  obtain this o1 e1 where s: "stage input [] flgs errors = (this, o1, e1)"
    by (cases "stage input [] flgs errors") auto
  define call where "call = \<lparr>call_stage = 0, call_input = input, call_result = this,
     call_total = this\<rparr>"
  have sl: "stage_loop stage 0 flgs (append_completion [] input) (EXPAND_OK, [], errors, []) =
      (this, o1, e1, [call])"
    by (simp add: append_completion_def s call_def)
  from stages_loop_appends [of rest 1 flgs this o1 e1 "[call]"]
  obtain new where "snd (snd (snd (stages_loop rest 1 flgs (this, o1, e1, [call])))) = [call] @ new"
    by blast
  with expand_string_calls [OF assms(1)] assms(2) have "calls = call # new"
    by (simp add: sl)
  then show ?thesis by (simp add: call_def s)
qed

lemma expand_string_invocations:
  assumes "expand_string D stages input out flgs errors = (total_result, out1, errors1, calls)"
  shows "invocations_of stages flgs calls"
proof (cases "EXPAND_FOR_COMPLETIONS \<notin> flgs \<and> expand_is_clean input")
  case True
  with expand_string_calls [OF assms] show ?thesis by (simp add: invocations_of_def)
next
  case False
  with expand_string_calls [OF assms] have c: "calls =
      snd (snd (snd (stages_loop stages 0 flgs (EXPAND_OK, append_completion [] input, errors, []))))"
    by simp
  have d: "stages = drop 0 stages" by simp
  have "invocations_of stages flgs []" by (simp add: invocations_of_def)
  from stages_loop_invocations [OF d this] show ?thesis
    unfolding c .
qed

lemma foldl_status_aggregation:
  "aggregated t calls \<Longrightarrow> last_total t calls = foldl status_aggregation t (map call_result calls)"
  by (induction calls arbitrary: t) (auto simp: status_aggregation_def)

text \<open>
  C6. In every run of expand_string, whatever the stages return, the value returned is
  the rule folded over the results of the stage invocations of the run, in their order,
  from \<^verbatim>\<open>EXPAND_OK\<close>. The invocation number \<open>k\<close> leaves the running result
  \<^verbatim>\<open>EXPAND_WILDCARD_MATCH\<close> when the stage returned \<^verbatim>\<open>EXPAND_WILDCARD_NO_MATCH\<close>
  while the running result was \<^verbatim>\<open>EXPAND_WILDCARD_MATCH\<close>, and replaces it by the
  result of the stage in every other case; so no invocation changes it from
  \<^verbatim>\<open>EXPAND_WILDCARD_MATCH\<close> to \<^verbatim>\<open>EXPAND_WILDCARD_NO_MATCH\<close>. Every invocation of the
  run is one of a stage of the pipeline on its input, with the result of that stage; a
  run that does not take the fast path, with at least one stage, starts with the first
  stage on the input of expand_string, the output list empty. And in every pass of the
  loop of lines 1476-1485 over the completions of a stage, from a running result that
  is not an error, the stage is invoked on each completion in order up to the first
  error, and the running result after the pass is the rule folded over the results of
  these invocations.
\<close>

theorem expand_string_status_aggregation:
  assumes "expand_string D stages input out flgs errors = (total_result, out1, errors1, calls)"
  shows "total_result = foldl status_aggregation EXPAND_OK (map call_result calls)
    \<and> total_result = running_result calls (length calls)
    \<and> (\<forall>k < length calls.
          running_result calls (k + 1) =
            status_aggregation (running_result calls k) (call_result (calls ! k))
          \<and> \<not> (running_result calls k = EXPAND_WILDCARD_MATCH
                \<and> running_result calls (k + 1) = EXPAND_WILDCARD_NO_MATCH))
    \<and> (\<forall>c \<in> set calls. call_stage c < length stages
          \<and> (\<exists>output_storage errors0.
                call_result c =
                  fst ((stages ! call_stage c) (call_input c) output_storage flgs errors0)))
    \<and> (stages \<noteq> [] \<and> \<not> (EXPAND_FOR_COMPLETIONS \<notin> flgs \<and> expand_is_clean input) \<longrightarrow>
          calls \<noteq> [] \<and> hd calls =
            \<lparr>call_stage = 0, call_input = input,
             call_result = fst ((hd stages) input [] flgs errors),
             call_total = fst ((hd stages) input [] flgs errors)\<rparr>)
    \<and> (running \<noteq> EXPAND_ERROR \<longrightarrow>
          (\<exists>output_storage1 errors2.
             stage_loop stage stage_idx flgs completions (running, output_storage, errors0, calls0) =
               (foldl status_aggregation running
                  (until_error
                     (stage_results stage flgs (map completion completions) output_storage errors0)),
                output_storage1, errors2,
                calls0 @ pass_calls stage_idx running (map completion completions)
                  (until_error
                     (stage_results stage flgs (map completion completions) output_storage errors0)))))"
proof -
  from expand_string_inv [OF assms]
  have a: "aggregated EXPAND_OK calls" and l: "last_total EXPAND_OK calls = total_result" by auto
  have 1: "total_result = foldl status_aggregation EXPAND_OK (map call_result calls)"
    using foldl_status_aggregation [OF a] l by simp
  have 2: "total_result = running_result calls (length calls)"
    using l by (auto simp: last_total_last running_result_def last_conv_nth)
  have 3: "\<forall>k < length calls.
          running_result calls (k + 1) =
            status_aggregation (running_result calls k) (call_result (calls ! k))
          \<and> \<not> (running_result calls k = EXPAND_WILDCARD_MATCH
                \<and> running_result calls (k + 1) = EXPAND_WILDCARD_NO_MATCH)"
  proof (intro allI impI)
    fix k assume k: "k < length calls"
    have "running_result calls (k + 1) =
        status_aggregation (running_result calls k) (call_result (calls ! k))"
      using aggregated_nth [OF a k] by (simp add: running_result_def status_aggregation_def)
    then show "running_result calls (k + 1) =
            status_aggregation (running_result calls k) (call_result (calls ! k))
          \<and> \<not> (running_result calls k = EXPAND_WILDCARD_MATCH
                \<and> running_result calls (k + 1) = EXPAND_WILDCARD_NO_MATCH)"
      by (auto simp: status_aggregation_def)
  qed
  have 4: "\<forall>c \<in> set calls. call_stage c < length stages
          \<and> (\<exists>output_storage errors0.
                call_result c =
                  fst ((stages ! call_stage c) (call_input c) output_storage flgs errors0))"
    using expand_string_invocations [OF assms] by (simp add: invocations_of_def)
  have 5: "stages \<noteq> [] \<and> \<not> (EXPAND_FOR_COMPLETIONS \<notin> flgs \<and> expand_is_clean input) \<longrightarrow>
          calls \<noteq> [] \<and> hd calls =
            \<lparr>call_stage = 0, call_input = input,
             call_result = fst ((hd stages) input [] flgs errors),
             call_total = fst ((hd stages) input [] flgs errors)\<rparr>"
  proof
    assume h: "stages \<noteq> [] \<and> \<not> (EXPAND_FOR_COMPLETIONS \<notin> flgs \<and> expand_is_clean input)"
    then obtain stage0 rest where st: "stages = stage0 # rest" by (cases stages) auto
    from expand_string_first_call [OF assms [unfolded st]] h
    show "calls \<noteq> [] \<and> hd calls =
            \<lparr>call_stage = 0, call_input = input,
             call_result = fst ((hd stages) input [] flgs errors),
             call_total = fst ((hd stages) input [] flgs errors)\<rparr>"
      by (simp add: st)
  qed
  have 6: "running \<noteq> EXPAND_ERROR \<longrightarrow>
          (\<exists>output_storage1 errors2.
             stage_loop stage stage_idx flgs completions (running, output_storage, errors0, calls0) =
               (foldl status_aggregation running
                  (until_error
                     (stage_results stage flgs (map completion completions) output_storage errors0)),
                output_storage1, errors2,
                calls0 @ pass_calls stage_idx running (map completion completions)
                  (until_error
                     (stage_results stage flgs (map completion completions) output_storage errors0))))"
    using stage_loop_pass by blast
  from 1 2 3 4 5 6 show ?thesis by (intro conjI)
qed

text \<open>
  C7. If in a run of expand_string some stage invocation returns \<^verbatim>\<open>EXPAND_ERROR\<close>,
  then expand_string returns \<^verbatim>\<open>EXPAND_ERROR\<close>, the output list of the caller is
  exactly as it was, and that invocation is the last one of the run: no stage is
  invoked after it, and none before it returned an error.
\<close>

theorem expand_string_error:
  assumes "expand_string D stages input out flgs errors = (total_result, out1, errors1, calls)"
    and "c \<in> set calls" and "call_result c = EXPAND_ERROR"
  shows "total_result = EXPAND_ERROR \<and> out1 = out
    \<and> calls \<noteq> [] \<and> c = last calls
    \<and> (\<forall>d \<in> set (butlast calls). call_result d \<noteq> EXPAND_ERROR)"
proof -
  from expand_string_inv [OF assms(1)]
  have n: "no_error_before_last total_result calls" and o: "total_result = EXPAND_ERROR \<longrightarrow> out1 = out"
    by auto
  from n assms(2,3) have t: "total_result = EXPAND_ERROR"
    by (auto simp: no_error_before_last_def split: if_splits)
  with n have ne: "calls \<noteq> []" and b: "\<forall>d \<in> set (butlast calls). call_result d \<noteq> EXPAND_ERROR"
    by (auto simp: no_error_before_last_def)
  from assms(2) ne have "c \<in> set (butlast calls) \<or> c = last calls"
    by (cases calls rule: rev_cases) auto
  with assms(3) b have "c = last calls" by blast
  with t o ne b show ?thesis by simp
qed

text \<open>Stages and an environment for the examples.\<close>

definition no_homes :: directory_env where
  "no_homes =
     \<lparr>env_home = None, missing_or_empty = (\<lambda>var. var = None \<or> var = Some []),
      as_string = concat, user_home = (\<lambda>name. None), wrealpath = (\<lambda>path. None)\<rparr>"

definition copy_stage :: expand_stage_t where
  "copy_stage input out flgs errors = (EXPAND_OK, append_completion out input, errors)"

definition split_stage :: expand_stage_t where
  "split_stage input out flgs errors =
     (EXPAND_OK,
      append_completion (append_completion out (input @ wcs ''a'')) (input @ wcs ''b''),
      errors)"

definition match_a_stage :: expand_stage_t where
  "match_a_stage input out flgs errors =
     (if last input = wc CHR ''a'' then EXPAND_WILDCARD_MATCH else EXPAND_WILDCARD_NO_MATCH,
      append_completion out input, errors)"

definition error_a_stage :: expand_stage_t where
  "error_a_stage input out flgs errors =
     (if last input = wc CHR ''a'' then EXPAND_ERROR else EXPAND_OK,
      append_completion out input, errors)"

lemmas driver_eval =
  expand_string_def expand_is_clean_def wcschr_found_def UNCLEAN_FIRST_def UNCLEAN_def
  unexpand_tildes_def append_completion_def wcs_def wc_def
  backslash_def double_quote_def single_quote_def
  copy_stage_def split_stage_def match_a_stage_def error_a_stage_def

theorem expand_string_clean_witness:
  "expand_string no_homes [error_a_stage] (wcs ''a b.c'') [] {} (Some []) =
     (EXPAND_OK, [\<lparr>completion = wcs ''a b.c'', description = [], flags = {}\<rparr>], Some [], [])
   \<and> expand_string no_homes [error_a_stage] [] [] {EXPAND_SKIP_CMDSUBST} None =
     (EXPAND_OK, [\<lparr>completion = [], description = [], flags = {}\<rparr>], None, [])"
proof -
  have 1: "EXPAND_FOR_COMPLETIONS \<notin> {}" "EXPAND_FOR_COMPLETIONS \<notin> {EXPAND_SKIP_CMDSUBST}"
    by simp_all
  have 2: "wcs ''a b.c'' = [] \<or> (wcs ''a b.c'' ! 0 \<noteq> 0 \<and> wcs ''a b.c'' ! 0 \<noteq> wc CHR ''~''
      \<and> wcs ''a b.c'' ! 0 \<noteq> wc CHR ''%'' \<and> set (wcs ''a b.c'') \<inter> unclean_characters = {})"
    by (simp add: wcs_def wc_def unclean_characters_def backslash_def double_quote_def
        single_quote_def)
  have 3: "[] = [] \<or> ([] ! 0 \<noteq> 0 \<and> [] ! 0 \<noteq> wc CHR ''~''
      \<and> [] ! 0 \<noteq> wc CHR ''%'' \<and> set [] \<inter> unclean_characters = {})"
    by simp
  from expand_string_clean [OF 1(1) 2, of no_homes "[error_a_stage]" "[]" "Some []"]
    expand_string_clean [OF 1(2) 3, of no_homes "[error_a_stage]" "[]" None]
  show ?thesis by simp
qed

text \<open>
  C3 as it was stated fails on the string that holds the NUL character alone: its
  first character is neither \<^verbatim>\<open>~\<close> nor \<^verbatim>\<open>%\<close> and it has no unclean
  character, but \<^verbatim>\<open>wcschr\<close> finds the NUL in \<^verbatim>\<open>UNCLEAN_FIRST\<close>, the string is
  not clean for the code, and the stages run.
\<close>

theorem expand_string_clean_counterexample:
  "expand_is_clean [0] = False
   \<and> expand_string no_homes [copy_stage] [0] [] {} (Some []) =
     (EXPAND_OK, [\<lparr>completion = [0], description = [], flags = {}\<rparr>], Some [],
      [\<lparr>call_stage = 0, call_input = [0], call_result = EXPAND_OK, call_total = EXPAND_OK\<rparr>])"
  by (simp add: driver_eval)

lemma run_match:
  "expand_string no_homes [split_stage, match_a_stage] (wcs ''*'') [] {} (Some []) =
     (EXPAND_WILDCARD_MATCH,
      [\<lparr>completion = wcs ''*a'', description = [], flags = {}\<rparr>,
       \<lparr>completion = wcs ''*b'', description = [], flags = {}\<rparr>],
      Some [],
      [\<lparr>call_stage = 0, call_input = wcs ''*'', call_result = EXPAND_OK, call_total = EXPAND_OK\<rparr>,
       \<lparr>call_stage = 1, call_input = wcs ''*a'', call_result = EXPAND_WILDCARD_MATCH,
          call_total = EXPAND_WILDCARD_MATCH\<rparr>,
       \<lparr>call_stage = 1, call_input = wcs ''*b'', call_result = EXPAND_WILDCARD_NO_MATCH,
          call_total = EXPAND_WILDCARD_MATCH\<rparr>])"
  by (simp add: driver_eval)

lemma run_replace:
  "expand_string no_homes [split_stage, match_a_stage, copy_stage] (wcs ''*'') [] {} (Some []) =
     (EXPAND_OK,
      [\<lparr>completion = wcs ''*a'', description = [], flags = {}\<rparr>,
       \<lparr>completion = wcs ''*b'', description = [], flags = {}\<rparr>],
      Some [],
      [\<lparr>call_stage = 0, call_input = wcs ''*'', call_result = EXPAND_OK, call_total = EXPAND_OK\<rparr>,
       \<lparr>call_stage = 1, call_input = wcs ''*a'', call_result = EXPAND_WILDCARD_MATCH,
          call_total = EXPAND_WILDCARD_MATCH\<rparr>,
       \<lparr>call_stage = 1, call_input = wcs ''*b'', call_result = EXPAND_WILDCARD_NO_MATCH,
          call_total = EXPAND_WILDCARD_MATCH\<rparr>,
       \<lparr>call_stage = 2, call_input = wcs ''*a'', call_result = EXPAND_OK, call_total = EXPAND_OK\<rparr>,
       \<lparr>call_stage = 2, call_input = wcs ''*b'', call_result = EXPAND_OK, call_total = EXPAND_OK\<rparr>])"
  by (simp add: driver_eval)

theorem expand_string_status_aggregation_witness:
  "expand_string no_homes [split_stage, match_a_stage] (wcs ''*'') [] {} (Some []) =
     (EXPAND_WILDCARD_MATCH,
      [\<lparr>completion = wcs ''*a'', description = [], flags = {}\<rparr>,
       \<lparr>completion = wcs ''*b'', description = [], flags = {}\<rparr>],
      Some [],
      [\<lparr>call_stage = 0, call_input = wcs ''*'', call_result = EXPAND_OK, call_total = EXPAND_OK\<rparr>,
       \<lparr>call_stage = 1, call_input = wcs ''*a'', call_result = EXPAND_WILDCARD_MATCH,
          call_total = EXPAND_WILDCARD_MATCH\<rparr>,
       \<lparr>call_stage = 1, call_input = wcs ''*b'', call_result = EXPAND_WILDCARD_NO_MATCH,
          call_total = EXPAND_WILDCARD_MATCH\<rparr>])
   \<and> EXPAND_WILDCARD_MATCH =
       foldl status_aggregation EXPAND_OK
         [EXPAND_OK, EXPAND_WILDCARD_MATCH, EXPAND_WILDCARD_NO_MATCH]
   \<and> fst (expand_string no_homes [split_stage, match_a_stage, copy_stage] (wcs ''*'') [] {} (Some []))
       = EXPAND_OK
   \<and> fst (stage_loop match_a_stage 1 {}
        [\<lparr>completion = wcs ''b'', description = [], flags = {}\<rparr>,
         \<lparr>completion = wcs ''a'', description = [], flags = {}\<rparr>,
         \<lparr>completion = wcs ''b'', description = [], flags = {}\<rparr>]
        (EXPAND_OK, [], Some [], [])) = EXPAND_WILDCARD_MATCH"
  using expand_string_status_aggregation [OF run_match,
      where running = EXPAND_OK and stage = match_a_stage and stage_idx = 1
        and completions = "[\<lparr>completion = wcs ''b'', description = [], flags = {}\<rparr>,
         \<lparr>completion = wcs ''a'', description = [], flags = {}\<rparr>,
         \<lparr>completion = wcs ''b'', description = [], flags = {}\<rparr>]"
        and output_storage = "[]" and ?errors0.0 = "Some []" and ?calls0.0 = "[]"]
    run_match run_replace
  by (simp add: match_a_stage_def append_completion_def wcs_def wc_def status_aggregation_def)

lemma run_error:
  "expand_string no_homes [split_stage, error_a_stage, copy_stage] (wcs ''*'')
       [\<lparr>completion = wcs ''kept'', description = [], flags = {}\<rparr>] {} (Some []) =
     (EXPAND_ERROR,
      [\<lparr>completion = wcs ''kept'', description = [], flags = {}\<rparr>],
      Some [],
      [\<lparr>call_stage = 0, call_input = wcs ''*'', call_result = EXPAND_OK, call_total = EXPAND_OK\<rparr>,
       \<lparr>call_stage = 1, call_input = wcs ''*a'', call_result = EXPAND_ERROR,
          call_total = EXPAND_ERROR\<rparr>])"
  by (simp add: driver_eval)

theorem expand_string_error_witness:
  "expand_string no_homes [split_stage, error_a_stage, copy_stage] (wcs ''*'')
       [\<lparr>completion = wcs ''kept'', description = [], flags = {}\<rparr>] {} (Some []) =
     (EXPAND_ERROR,
      [\<lparr>completion = wcs ''kept'', description = [], flags = {}\<rparr>],
      Some [],
      [\<lparr>call_stage = 0, call_input = wcs ''*'', call_result = EXPAND_OK, call_total = EXPAND_OK\<rparr>,
       \<lparr>call_stage = 1, call_input = wcs ''*a'', call_result = EXPAND_ERROR,
          call_total = EXPAND_ERROR\<rparr>])
   \<and> \<lparr>call_stage = 1, call_input = wcs ''*a'', call_result = EXPAND_ERROR,
          call_total = EXPAND_ERROR\<rparr> =
       last
        [\<lparr>call_stage = 0, call_input = wcs ''*'', call_result = EXPAND_OK, call_total = EXPAND_OK\<rparr>,
         \<lparr>call_stage = 1, call_input = wcs ''*a'', call_result = EXPAND_ERROR,
            call_total = EXPAND_ERROR\<rparr>]"
  using expand_string_error [OF run_error,
      of "\<lparr>call_stage = 1, call_input = wcs ''*a'', call_result = EXPAND_ERROR,
          call_total = EXPAND_ERROR\<rparr>"] run_error
  by simp

section \<open>Properties of the wildcard stage\<close>

text \<open>
  A marker remains after remove_internal_separator exactly when the input has one
  and the markers are not turned back into literal characters.
\<close>

lemma wildcard_has_internal_remove:
  "wildcard_has_internal (remove_internal_separator input conv) \<longleftrightarrow>
     \<not> conv \<and> (\<exists>c \<in> set input. c = ANY_CHAR \<or> c = ANY_STRING \<or> c = ANY_STRING_RECURSIVE)"
  by (auto simp: wildcard_has_internal_def remove_internal_separator_def Let_def wc_def marker_defs)

text \<open>
  C10. When \<^verbatim>\<open>EXECUTABLES_ONLY\<close> is set and the text the stage works on still
  contains a wildcard marker (\<^verbatim>\<open>has_wildcard\<close> of line 1371, computed once the
  internal separators are removed and, under \<^verbatim>\<open>EXPAND_SKIP_WILDCARDS\<close>, the markers
  are turned back into literal characters), the stage returns \<^verbatim>\<open>EXPAND_OK\<close> and
  leaves the output list and the errors as they were, with or without the completions
  flag, whatever the matcher, the environment and the working directory are: nothing is
  matched and nothing is passed through.
\<close>

theorem expand_stage_wildcards_executables_only:
  assumes "EXECUTABLES_ONLY \<in> flgs"
    and "wildcard_has_internal (remove_internal_separator input (EXPAND_SKIP_WILDCARDS \<in> flgs))"
  shows "expand_stage_wildcards W input out flgs errors = (EXPAND_OK, out, errors)"
  using assms by (simp add: expand_stage_wildcards_def Let_def)

text \<open>An environment with no file, for the examples.\<close>

definition no_files :: wildcard_env where
  "no_files =
     \<lparr>env_get_pwd_slash = wcs ''/'', env_path = None, env_cdpath = None,
      path_missing_or_empty = (\<lambda>var. var = None),
      path_apply_working_directory = (\<lambda>path wd. wd @ path),
      wildcard_expand_string = (\<lambda>wc_str wd flgs expanded. (0, expanded)),
      natural_sort = (\<lambda>comps. comps)\<rparr>"

theorem expand_stage_wildcards_executables_only_witness:
  "expand_stage_wildcards no_files (wcs ''l'' @ [INTERNAL_SEPARATOR, ANY_STRING]) []
       {EXECUTABLES_ONLY, EXPAND_FOR_COMPLETIONS} (Some []) = (EXPAND_OK, [], Some [])
   \<and> expand_stage_wildcards no_files [ANY_CHAR] [] {EXECUTABLES_ONLY} (Some []) =
       (EXPAND_OK, [], Some [])"
proof -
  have 1: "wildcard_has_internal (remove_internal_separator
      (wcs ''l'' @ [INTERNAL_SEPARATOR, ANY_STRING])
      (EXPAND_SKIP_WILDCARDS \<in> {EXECUTABLES_ONLY, EXPAND_FOR_COMPLETIONS}))"
    by (simp add: wildcard_has_internal_remove)
  have 2: "wildcard_has_internal (remove_internal_separator [ANY_CHAR]
      (EXPAND_SKIP_WILDCARDS \<in> {EXECUTABLES_ONLY}))"
    by (simp add: wildcard_has_internal_remove)
  from expand_stage_wildcards_executables_only [OF _ 1, of no_files "[]" "Some []"]
    expand_stage_wildcards_executables_only [OF _ 2, of no_files "[]" "Some []"]
  show ?thesis by simp
qed

text \<open>
  Under \<^verbatim>\<open>EXPAND_SKIP_WILDCARDS\<close> no marker remains: the input is passed through with
  the literal character, also when \<^verbatim>\<open>EXECUTABLES_ONLY\<close> is set.
\<close>

lemma skip_wildcards_passes_through:
  "expand_stage_wildcards no_files [ANY_CHAR] [] {EXECUTABLES_ONLY, EXPAND_SKIP_WILDCARDS} (Some [])
     = (EXPAND_OK, [\<lparr>completion = wcs ''?'', description = [], flags = {}\<rparr>], Some [])"
  by (simp add: expand_stage_wildcards_def remove_internal_separator_def
      wildcard_has_internal_def append_completion_def wcs_def wc_def marker_defs)

section \<open>Properties of command substitution\<close>

lemma cmdsubst_tails_eq:
  "cmdsubst_tails prefix sub_item2 tail_expand out_list =
    out_list @ map (\<lambda>tail_item.
      \<lparr>completion = prefix @ [INTERNAL_SEPARATOR] @ sub_item2 @ [INTERNAL_SEPARATOR]
          @ completion tail_item,
       description = [], flags = {}\<rparr>) tail_expand"
  by (induction tail_expand arbitrary: out_list) (simp_all add: append_completion_def)

lemma cmdsubst_lines_eq:
  "cmdsubst_lines esc prefix sub_res tail_expand out_list =
    out_list @ concat (map (\<lambda>sub_item. map (\<lambda>tail_item.
      \<lparr>completion = prefix @ [INTERNAL_SEPARATOR] @ esc sub_item @ [INTERNAL_SEPARATOR]
          @ completion tail_item,
       description = [], flags = {}\<rparr>) tail_expand) sub_res)"
  by (induction sub_res arbitrary: out_list) (simp_all add: cmdsubst_tails_eq)

lemma length_concat_map_const:
  "length (concat (map (\<lambda>x. map (f x) ys) xs)) = length xs * length ys"
  by (induction xs) simp_all

lemma expand_cmdsubst_found_step:
  assumes "wcs_of_ptr input 0 = cin"
    and "parse_util_locate_cmdsubst X cin False = (1, paren_begin, paren_end)"
    and "paren_begin < paren_end \<and> paren_end < length cin"
    and "exec_subshell X (take (paren_end - paren_begin - 1) (drop (paren_begin + 1) cin)) w =
          (rc, sub_res, w1)"
    and "rc \<noteq> - 1" and "proc_get_last_status X w1 \<noteq> STATUS_READ_TOO_MUCH"
    and "cmdsubst_slice cin (paren_end + 1) sub_res = Inr (sub_res1, tail_begin)"
    and "expand_cmdsubst X (wcs_of_ptr cin tail_begin) [] errors w1 =
          Some (tail_ok, tail_expand, errors1, w2)"
  shows "expand_cmdsubst X input out_list errors w =
    Some (proc_get_last_status X w2 \<noteq> STATUS_READ_TOO_MUCH,
      cmdsubst_lines (escape_string X) (take paren_begin cin) sub_res1 tail_expand out_list,
      errors1, w2)"
proof -
  have n: "(1::int) \<noteq> - 1" "(1::int) \<noteq> 0" by simp_all
  show ?thesis
    by (subst expand_cmdsubst.simps)
      (simp only: assms Let_def prod.case sum.case option.case if_True if_False simp_thms n)
qed

text \<open>
  C5. Let the locate function find a substitution in the input, with the parentheses
  at \<open>paren_begin\<close> and \<open>paren_end\<close>; let the subshell run without error on the
  text between them and give lines which, after the slice that may follow the closing
  parenthesis, are the list \<open>L\<close>; and let the recursive expansion of the tail give
  the list \<open>T\<close>. Then expand_cmdsubst adds to its output list exactly
  \<open>|L| * |T|\<close> completions, for each line of \<open>L\<close> in order and, within a line,
  for each tail of \<open>T\<close> in order, the text before the opening parenthesis, an
  \<^verbatim>\<open>INTERNAL_SEPARATOR\<close>, the line escaped, an \<^verbatim>\<open>INTERNAL_SEPARATOR\<close> and the
  tail. (What escape_string does to a line is outside the engine.)
\<close>

theorem expand_cmdsubst_product:
  assumes "wcs_of_ptr input 0 = cin"
    and "parse_util_locate_cmdsubst X cin False = (1, paren_begin, paren_end)"
    and "paren_begin < paren_end \<and> paren_end < length cin"
    and "exec_subshell X (take (paren_end - paren_begin - 1) (drop (paren_begin + 1) cin)) w =
          (rc, sub_res, w1)"
    and "rc \<noteq> - 1" and "proc_get_last_status X w1 \<noteq> STATUS_READ_TOO_MUCH"
    and "cmdsubst_slice cin (paren_end + 1) sub_res = Inr (L, tail_begin)"
    and "expand_cmdsubst X (wcs_of_ptr cin tail_begin) [] errors w1 =
          Some (tail_ok, T, errors1, w2)"
  shows "\<exists>added.
    expand_cmdsubst X input out_list errors w =
      Some (proc_get_last_status X w2 \<noteq> STATUS_READ_TOO_MUCH, out_list @ added, errors1, w2)
    \<and> added =
      concat (map (\<lambda>line. map (\<lambda>tail.
        \<lparr>completion = take paren_begin cin @ [INTERNAL_SEPARATOR] @ escape_string X line
            @ [INTERNAL_SEPARATOR] @ completion tail,
         description = [], flags = {}\<rparr>) T) L)
    \<and> length added = length L * length T"
  unfolding expand_cmdsubst_found_step [OF assms] cmdsubst_lines_eq
  by (simp add: length_concat_map_const)

text \<open>
  An example: the substitution of \<^verbatim>\<open>a(b)[2 1]c\<close> gives the lines \<^verbatim>\<open>x\<close> and
  \<^verbatim>\<open>y z\<close>, and the escape puts a backslash before a space.
\<close>

definition two_lines_env :: "nat cmdsubst_env" where
  "two_lines_env =
     \<lparr>parse_util_locate_cmdsubst =
        (\<lambda>cin accept_incomplete. if cin = wcs ''a(b)[2 1]c'' then (1, 1, 3) else (0, 0, 0)),
      exec_subshell = (\<lambda>cmd w. (0, [wcs ''x'', wcs ''y z''], w + 1)),
      proc_get_last_status = (\<lambda>w. 0),
      escape_string =
        (\<lambda>s. concat (map (\<lambda>c. if c = wc CHR '' '' then [wc backslash, c] else [c]) s))\<rparr>"

lemma cmdsubst_none_step:
  assumes "parse_util_locate_cmdsubst X (wcs_of_ptr input 0) False = (0, paren_begin, paren_end)"
  shows "expand_cmdsubst X input out_list errors w =
    Some (True, append_completion out_list input, errors, w)"
  by (subst expand_cmdsubst.simps) (simp add: assms)

lemma two_lines_tail:
  "expand_cmdsubst two_lines_env (wcs ''c'') [] (Some []) 1 =
    Some (True, [\<lparr>completion = wcs ''c'', description = [], flags = {}\<rparr>], Some [], 1)"
  by (subst cmdsubst_none_step [of _ _ 0 0])
    (simp_all add: two_lines_env_def wcs_of_ptr_def wcs_def wc_def append_completion_def)

lemma parse_slice_2_1: "parse_slice (wcs ''[2 1]c'') 2 = Inr ([2, 1], [1, 3], 5)"
proof -
  let ?s = "wcs ''[2 1]c''"
  have a: "skip_while (\<lambda>c. iswspace c \<or> c = INTERNAL_SEPARATOR) ?s 1 = 1"
    and b: "cstr_at ?s 1 \<noteq> wc CHR '']''"
    and d: "skip_while (\<lambda>c. c = INTERNAL_SEPARATOR) ?s 3 = 3"
    and e: "\<not> (cstr_at ?s 3 = wc CHR ''.'' \<and> cstr_at ?s (3 + 1) = wc CHR ''.'')"
    and a2: "skip_while (\<lambda>c. iswspace c \<or> c = INTERNAL_SEPARATOR) ?s 3 = 3"
    and b2: "cstr_at ?s 3 \<noteq> wc CHR '']''"
    and d2: "skip_while (\<lambda>c. c = INTERNAL_SEPARATOR) ?s 4 = 4"
    and e2: "\<not> (cstr_at ?s 4 = wc CHR ''.'' \<and> cstr_at ?s (4 + 1) = wc CHR ''.'')"
    and a3: "skip_while (\<lambda>c. iswspace c \<or> c = INTERNAL_SEPARATOR) ?s 4 = 4"
    and b3: "cstr_at ?s 4 = wc CHR '']''"
    by (simp_all add: eval_defs)
  have c: "fish_wcstol ?s 1 = (2, 3, - 1)" and c2: "fish_wcstol ?s 3 = (1, 4, - 1)"
    by (simp_all add: eval_defs fish_wcstol_def)
  have n: "\<not> 0 < (- 1 :: int)" by simp
  have "parse_slice_loop ?s 2 1 [] [] = parse_slice_loop ?s 2 3 ([] @ [2]) ([] @ [1])"
    using parse_slice_loop_index [OF a b c n d e, of 2 "[]" "[]"] by simp
  also have "\<dots> = parse_slice_loop ?s 2 4 (([] @ [2]) @ [1]) (([] @ [1]) @ [3])"
    using parse_slice_loop_index [OF a2 b2 c2 n d2 e2, of 2 "[] @ [2]" "[] @ [1]"] by simp
  also have "\<dots> = Inr (([] @ [2]) @ [1], ([] @ [1]) @ [3], 4 + 1)"
    by (rule parse_slice_loop_close [OF a3 b3])
  finally show ?thesis by (simp add: parse_slice_def)
qed

theorem expand_cmdsubst_product_witness:
  "expand_cmdsubst two_lines_env (wcs ''a(b)[2 1]c'') [] (Some []) 0 =
     Some (True,
       [\<lparr>completion = wcs ''a'' @ [INTERNAL_SEPARATOR] @ wcs ''y'' @ [wc backslash] @ wcs '' z''
            @ [INTERNAL_SEPARATOR] @ wcs ''c'', description = [], flags = {}\<rparr>,
        \<lparr>completion = wcs ''a'' @ [INTERNAL_SEPARATOR] @ wcs ''x''
            @ [INTERNAL_SEPARATOR] @ wcs ''c'', description = [], flags = {}\<rparr>],
       Some [], 1)"
proof -
  let ?in = "wcs ''a(b)[2 1]c''"
  have 1: "wcs_of_ptr ?in 0 = ?in" by (simp add: wcs_of_ptr_def wcs_def wc_def)
  have 2: "parse_util_locate_cmdsubst two_lines_env ?in False = (1, 1, 3)"
    by (simp add: two_lines_env_def)
  have 3: "(1::nat) < 3 \<and> 3 < length ?in" by (simp add: wcs_def)
  have 4: "exec_subshell two_lines_env (take (3 - 1 - 1) (drop (1 + 1) ?in)) 0 =
      (0, [wcs ''x'', wcs ''y z''], 1)"
    by (simp add: two_lines_env_def)
  have 5: "(0::int) \<noteq> - 1" by simp
  have 6: "proc_get_last_status two_lines_env 1 \<noteq> STATUS_READ_TOO_MUCH"
    by (simp add: two_lines_env_def STATUS_READ_TOO_MUCH_def)
  have dr: "drop (3 + 1) ?in = wcs ''[2 1]c''" by (simp add: wcs_def)
  have 7: "cmdsubst_slice ?in (3 + 1) [wcs ''x'', wcs ''y z''] =
      Inr ([wcs ''y z'', wcs ''x''], 9)"
  proof -
    have ps: "parse_slice (wcs ''[2 1]c'') (length [wcs ''x'', wcs ''y z'']) =
        Inr ([2, 1], [1, 3], 5)"
      using parse_slice_2_1 by (simp add: numeral_2_eq_2)
    have c: "cstr_at ?in (3 + 1) = wc CHR ''[''" by (simp add: cstr_at_def wcs_def)
    show ?thesis unfolding cmdsubst_slice_def dr ps c by simp
  qed
  have 8: "expand_cmdsubst two_lines_env (wcs_of_ptr ?in 9) [] (Some []) 1 =
      Some (True, [\<lparr>completion = wcs ''c'', description = [], flags = {}\<rparr>], Some [], 1)"
    using two_lines_tail by (simp add: wcs_of_ptr_def wcs_def wc_def)
  have e1: "escape_string two_lines_env (wcs ''y z'') = wcs ''y'' @ [wc backslash] @ wcs '' z''"
    and e2: "escape_string two_lines_env (wcs ''x'') = wcs ''x''"
    by (simp_all add: two_lines_env_def wcs_def wc_def)
  from expand_cmdsubst_product [OF 1 2 3 4 5 6 7 8, of "[]"]
  obtain added where r: "expand_cmdsubst two_lines_env ?in [] (Some []) 0 =
      Some (proc_get_last_status two_lines_env 1 \<noteq> STATUS_READ_TOO_MUCH, [] @ added, Some [], 1)"
    and a: "added = concat (map (\<lambda>line. map (\<lambda>tail.
        \<lparr>completion = take 1 ?in @ [INTERNAL_SEPARATOR] @ escape_string two_lines_env line
            @ [INTERNAL_SEPARATOR] @ completion tail,
         description = [], flags = {}\<rparr>)
        [\<lparr>completion = wcs ''c'', description = [], flags = {}\<rparr>])
        [wcs ''y z'', wcs ''x''])"
    by blast
  have t1: "take 1 ?in = wcs ''a''" by (simp add: wcs_def)
  show ?thesis
    unfolding r a t1 using 6 by (simp add: e1 e2)
qed

end
